theory Spec2Isabelle
  imports Complex_Main "HOL-Library.Word" "HOL-Library.Multiset" "HOL-Library.Log_Nat"
begin

section \<open>Arrays, ranges and errors\<close>

text \<open>
  The runner \<^verbatim>\<open>modeltester_UI_mit.py\<close> works on numpy arrays. A two-dimensional array is
  modelled by its shape and its cell function; only the cells inside the shape are
  meaningful. The image is an \<open>H \<times> W \<times> 3\<close> array of \<^verbatim>\<open>uint8\<close>: its cells are the
  three channel samples of a pixel.
\<close>

record 'a ndarray2 =
  nrows :: nat
  ncols :: nat
  cell :: "nat \<Rightarrow> nat \<Rightarrow> 'a"

type_synonym rgb = "8 word \<times> 8 word \<times> 8 word"
type_synonym image = "rgb ndarray2"

text \<open>
  Exceptions, by their class. \<open>ValueError\<close> and \<open>IndexError\<close> are Python's,
  \<open>RasterioIOError\<close> is rasterio's; \<open>OtherError\<close> stands for any other class that the
  libraries raise. \<open>ImageReadError\<close> is a class that the specification names; the source
  defines no exception class of its own.
\<close>

datatype py_error = ValueError | IndexError | RasterioIOError | ImageReadError | OtherError string

definition PATCH_SIZE :: nat where
  "PATCH_SIZE = 128"

definition STRIDE :: nat where
  "STRIDE = 128"

text \<open>
  \<^verbatim>\<open>range(start, stop, step)\<close> for a positive step: the values \<open>start\<close>,
  \<open>start + step\<close>, ... below \<open>stop\<close>. The stop value is an integer, since
  \<^verbatim>\<open>H - size + 1\<close> may be negative. A zero step raises \<^verbatim>\<open>ValueError\<close> in Python;
  that case is a branch of \<open>extract_patches\<close> below.
\<close>

function py_range :: "nat \<Rightarrow> int \<Rightarrow> nat \<Rightarrow> nat list" where
  "py_range i stop step =
     (if 0 < step \<and> int i < stop then i # py_range (i + step) stop step else [])"
  by pat_completeness auto
termination
  by (relation "measure (\<lambda>(i, stop, step). nat (stop - int i))") auto

declare py_range.simps [simp del]

text \<open>
  \<^verbatim>\<open>a[y0:y1, x0:x1]\<close> for non-negative bounds: numpy clamps both bounds to the
  array's extent.
\<close>

definition slice2 :: "'a ndarray2 \<Rightarrow> nat \<Rightarrow> nat \<Rightarrow> nat \<Rightarrow> nat \<Rightarrow> 'a ndarray2" where
  "slice2 a y0 y1 x0 x1 =
     \<lparr>nrows = min y1 (nrows a) - min y0 (nrows a),
      ncols = min x1 (ncols a) - min x0 (ncols a),
      cell = (\<lambda>r c. cell a (y0 + r) (x0 + c))\<rparr>"

text \<open>\<^verbatim>\<open>np.zeros((H, W), dtype=np.uint8)\<close>\<close>

definition np_zeros :: "nat \<Rightarrow> nat \<Rightarrow> 8 word ndarray2" where
  "np_zeros h w = \<lparr>nrows = h, ncols = w, cell = (\<lambda>r c. 0)\<rparr>"

section \<open>The tiler: \<^verbatim>\<open>extract_patches\<close>\<close>

text \<open>
  \<^verbatim>\<open>
  def extract_patches(image, size=PATCH_SIZE, stride=STRIDE):
      H, W, _ = image.shape
      patches, positions = [], []
      for y in range(0, H - size + 1, stride):
          for x in range(0, W - size + 1, stride):
              patch = image[y:y+size, x:x+size]
              patches.append(patch)
              positions.append((y, x))
      return patches, positions, H, W
  \<close>
  The two loops are recursions over the values of their ranges, threading the two lists.
  The parameters \<^verbatim>\<open>image\<close> and \<^verbatim>\<open>size\<close> are written \<open>img\<close> and \<open>sz\<close>, the names
  being constants of HOL; for the same reason \<^verbatim>\<open>mask\<close> is \<open>msk\<close> in \<open>main\<close>.
\<close>

type_synonym tiles = "image list \<times> (nat \<times> nat) list"

fun patches_x_loop :: "image \<Rightarrow> nat \<Rightarrow> nat \<Rightarrow> nat list \<Rightarrow> tiles \<Rightarrow> tiles" where
  "patches_x_loop img sz y [] acc = acc"
| "patches_x_loop img sz y (x # xs) (patches, positions) =
     patches_x_loop img sz y xs
       (patches @ [slice2 img y (y + sz) x (x + sz)], positions @ [(y, x)])"

fun patches_y_loop :: "image \<Rightarrow> nat \<Rightarrow> nat list \<Rightarrow> nat list \<Rightarrow> tiles \<Rightarrow> tiles" where
  "patches_y_loop img sz [] xs acc = acc"
| "patches_y_loop img sz (y # ys) xs acc =
     patches_y_loop img sz ys xs (patches_x_loop img sz y xs acc)"

definition extract_patches ::
  "image \<Rightarrow> nat \<Rightarrow> nat \<Rightarrow> py_error + (image list \<times> (nat \<times> nat) list \<times> nat \<times> nat)" where
  "extract_patches img sz stride =
     (let H = nrows img; W = ncols img in
      if stride = 0 then Inl ValueError
      else
        (case patches_y_loop img sz
                (py_range 0 (int H - int sz + 1) stride)
                (py_range 0 (int W - int sz + 1) stride) ([], []) of
           (patches, positions) \<Rightarrow> Inr (patches, positions, H, W)))"

text \<open>The pixels a patch at offset \<open>(y, x)\<close> covers.\<close>

definition covers :: "nat \<times> nat \<Rightarrow> nat \<times> nat \<Rightarrow> bool" where
  "covers pos px =
     (fst pos \<le> fst px \<and> fst px < fst pos + PATCH_SIZE \<and>
      snd pos \<le> snd px \<and> snd px < snd pos + PATCH_SIZE)"

section \<open>Inference and stitching: \<^verbatim>\<open>infer_full_mask\<close>\<close>

text \<open>
  For one patch the runner resizes it to \<^verbatim>\<open>PATCH_SIZE \<times> PATCH_SIZE\<close>, normalises it, runs
  the network (two classes) and takes the arg-max over the class dimension. The network
  is outside the repository: it is a parameter, the function from a patch to its
  \<^verbatim>\<open>PATCH_SIZE \<times> PATCH_SIZE\<close> grid of class indices, or the exception the forward pass
  raised.
\<close>

type_synonym model = "image \<Rightarrow> py_error + (nat \<Rightarrow> nat \<Rightarrow> nat)"

definition predict :: "model \<Rightarrow> image \<Rightarrow> py_error + nat ndarray2" where
  "predict model patch =
     (case model patch of
        Inl e \<Rightarrow> Inl e
      | Inr labels \<Rightarrow> Inr \<lparr>nrows = PATCH_SIZE, ncols = PATCH_SIZE, cell = labels\<rparr>)"

text \<open>
  \<^verbatim>\<open>a[y0:y1, x0:x1] = v\<close> into a \<^verbatim>\<open>uint8\<close> array: the value's shape must match the
  target slice (a value with an extent of 1 would be broadcast by numpy; the values
  assigned here have both extents \<open>PATCH_SIZE\<close>), and each \<^verbatim>\<open>int64\<close> class index is
  cast to \<^verbatim>\<open>uint8\<close>, which wraps modulo 256.
\<close>

definition assign_slice ::
  "8 word ndarray2 \<Rightarrow> nat \<Rightarrow> nat \<Rightarrow> nat \<Rightarrow> nat \<Rightarrow> nat ndarray2 \<Rightarrow> py_error + 8 word ndarray2" where
  "assign_slice a y0 y1 x0 x1 v =
     (let target = slice2 a y0 y1 x0 x1 in
      if nrows target = nrows v \<and> ncols target = ncols v
      then Inr (a\<lparr>cell :=
                  (\<lambda>r c. if y0 \<le> r \<and> r < y0 + nrows v \<and> x0 \<le> c \<and> c < x0 + ncols v
                         then of_nat (cell v (r - y0) (c - x0))
                         else cell a r c)\<rparr>)
      else Inl ValueError)"

text \<open>\<^verbatim>\<open>np.sum(a == v)\<close>: the number of cells of \<open>a\<close> that hold \<open>v\<close>.\<close>

definition count_eq :: "'a ndarray2 \<Rightarrow> 'a \<Rightarrow> nat" where
  "count_eq a v =
     sum_list (map (\<lambda>r. length (filter (\<lambda>c. cell a r c = v) [0 ..< ncols a])) [0 ..< nrows a])"

text \<open>
  \<^verbatim>\<open>
  def infer_full_mask(model, image):
      patches, positions, H, W = extract_patches(image)
      mask_out = np.zeros((H, W), dtype=np.uint8)
      total_rooftop_pixels = 0
      for patch, (y, x) in zip(patches, positions):
          transformed = transform(image=patch)
          input_tensor = transformed["image"].unsqueeze(0)
          with torch.no_grad():
              pred = model(input_tensor)
              pred_mask = torch.argmax(pred.squeeze(), dim=0).cpu().numpy()
              mask_out[y:y+PATCH_SIZE, x:x+PATCH_SIZE] = pred_mask
              total_rooftop_pixels += np.sum(pred_mask == 1)
      return mask_out, total_rooftop_pixels
  \<close>
  The loop threads the mask and the running total. The total is a Python integer,
  then an \<^verbatim>\<open>int64\<close>; it is bounded by the number of cells of the mask, an array that
  is held in memory, so it is modelled without wrap-around.
\<close>

type_synonym mask = "8 word ndarray2"

fun infer_loop ::
  "model \<Rightarrow> (image \<times> nat \<times> nat) list \<Rightarrow> mask \<times> nat \<Rightarrow> py_error + (mask \<times> nat)" where
  "infer_loop model [] acc = Inr acc"
| "infer_loop model ((patch, (y, x)) # rest) (mask_out, total_rooftop_pixels) =
     (case predict model patch of
        Inl e \<Rightarrow> Inl e
      | Inr pred_mask \<Rightarrow>
          (case assign_slice mask_out y (y + PATCH_SIZE) x (x + PATCH_SIZE) pred_mask of
             Inl e \<Rightarrow> Inl e
           | Inr mask_out' \<Rightarrow>
               infer_loop model rest
                 (mask_out', total_rooftop_pixels + count_eq pred_mask 1)))"

definition infer_full_mask :: "model \<Rightarrow> image \<Rightarrow> py_error + (mask \<times> nat)" where
  "infer_full_mask model img =
     (case extract_patches img PATCH_SIZE STRIDE of
        Inl e \<Rightarrow> Inl e
      | Inr (patches, positions, H, W) \<Rightarrow>
          infer_loop model (zip patches positions) (np_zeros H W, 0))"

section \<open>Text, integers and floats of the runner\<close>

text \<open>
  Standard output is a character stream; \<^verbatim>\<open>print(s)\<close> appends the text and a line feed.
  Strings are byte strings here (the superscript two of the progress line is its two
  UTF-8 bytes), which is also what the caller splits into lines.
\<close>

definition newline :: char where
  "newline = CHR 0x0A"

definition print :: "string \<Rightarrow> string" where
  "print s = s @ [newline]"

text \<open>The decimal text of a non-negative integer, as \<^verbatim>\<open>str\<close> and an f-string give it.\<close>

definition digit_char :: "nat \<Rightarrow> char" where
  "digit_char d = char_of (48 + d)"

function str_nat :: "nat \<Rightarrow> string" where
  "str_nat n = (if n < 10 then [digit_char n] else str_nat (n div 10) @ [digit_char (n mod 10)])"
  by pat_completeness auto
termination
  by (relation "measure id") auto

declare str_nat.simps [simp del]

text \<open>
  A Python \<^verbatim>\<open>float\<close> is an IEEE 754 double. A finite double is modelled by the rational
  it denotes. \<open>to_double\<close> rounds a rational to the nearest double, ties to even, with a
  53-bit significand. Overflow to infinity and subnormal numbers are left out: the values
  the runner computes are 0 or lie between 0.09 and \<open>2 ^ 64\<close>.
\<close>

definition round_half_even :: "rat \<Rightarrow> int" where
  "round_half_even q =
     (let f = \<lfloor>q\<rfloor>; d = q - of_int f in
      if d < 1 / 2 then f
      else if 1 / 2 < d then f + 1
      else if even f then f else f + 1)"

text \<open>The binary exponent of a non-zero rational: the \<open>e\<close> with \<open>2 ^ e \<le> \<bar>q\<bar> < 2 ^ (e + 1)\<close>.\<close>

definition binary_exponent :: "rat \<Rightarrow> int" where
  "binary_exponent q =
     (case quotient_of \<bar>q\<bar> of
        (a, b) \<Rightarrow>
          (let e = bitlen a - bitlen b in
           if power_int 2 e \<le> \<bar>q\<bar> then e else e - 1))"

definition to_double :: "rat \<Rightarrow> rat" where
  "to_double q =
     (if q = 0 then 0
      else
        (let e = binary_exponent q - 52 in
         of_int (round_half_even (q / power_int 2 e)) * power_int 2 e))"

text \<open>\<^verbatim>\<open>PIXEL_AREA_M2 = 0.09\<close>: the literal denotes the double nearest to 9/100.\<close>

definition PIXEL_AREA_M2 :: rat where
  "PIXEL_AREA_M2 = to_double (9 / 100)"

text \<open>
  \<^verbatim>\<open>n * x\<close> for an integer \<open>n\<close> and a float \<open>x\<close>: the integer is converted to a double,
  and the product of the two doubles is rounded.
\<close>

definition int_times_float :: "nat \<Rightarrow> rat \<Rightarrow> rat" where
  "int_times_float n x = to_double (to_double (of_nat n) * x)"

text \<open>
  \<^verbatim>\<open>f"{x:.2f}"\<close>: the exact value of the double, correctly rounded to two decimals
  (ties to even), in fixed notation.
\<close>

definition format_2f :: "rat \<Rightarrow> string" where
  "format_2f x =
     (let k = nat (round_half_even (\<bar>x\<bar> * 100)) in
      (if x < 0 then ''-'' else []) @ str_nat (k div 100) @ ''.'' @
      [digit_char (k mod 100 div 10), digit_char (k mod 10)])"

section \<open>Reading the raster\<close>

text \<open>
  \<^verbatim>\<open>
  with rasterio.open(image_path) as src:
      image = src.read([1, 2, 3]).astype(np.uint8)
      image = np.transpose(image, (1, 2, 0))  # CHW to HWC
  \<close>
  A file is either one rasterio cannot open (\<^verbatim>\<open>rasterio.open\<close> raises
  \<^verbatim>\<open>RasterioIOError\<close>) or a dataset with a number of bands, a height, a width and
  integer samples indexed by band (from 1), row and column. Reading a band index beyond
  the band count raises \<^verbatim>\<open>IndexError\<close>. \<^verbatim>\<open>astype(np.uint8)\<close> wraps modulo 256.
\<close>

datatype raster =
  Unreadable
| Dataset (band_count: nat) (ds_height: nat) (ds_width: nat) (samples: "nat \<Rightarrow> nat \<Rightarrow> nat \<Rightarrow> int")

definition read_image :: "raster \<Rightarrow> py_error + image" where
  "read_image f =
     (case f of
        Unreadable \<Rightarrow> Inl RasterioIOError
      | Dataset n h w s \<Rightarrow>
          if n < 3 then Inl IndexError
          else Inr \<lparr>nrows = h, ncols = w,
                    cell = (\<lambda>r c. (of_int (s 1 r c), of_int (s 2 r c), of_int (s 3 r c)))\<rparr>)"

section \<open>The runner: \<^verbatim>\<open>main\<close> and the entry point\<close>

text \<open>
  What a run depends on outside the program: which paths exist, what \<^verbatim>\<open>load_model()\<close>
  gives (the network, or the exception it raised), the raster file at a path, the text
  that \<^verbatim>\<open>print\<close> shows for \<^verbatim>\<open>round(rooftop_area, 2)\<close>, and whether the plotting block
  (from \<^verbatim>\<open>plt.figure\<close> to \<^verbatim>\<open>plt.close\<close>) raised.
\<close>

record env =
  path_exists :: "string \<Rightarrow> bool"
  load_model :: "py_error + model"
  raster_at :: "string \<Rightarrow> raster"
  str_round2 :: "rat \<Rightarrow> string"
  save_plot :: "image \<Rightarrow> mask \<Rightarrow> rat \<Rightarrow> py_error option"

text \<open>
  \<^verbatim>\<open>
  def main(image_path):
      print("Loading model...")
      model = load_model()
      print("Reading image...")
      with rasterio.open(image_path) as src: ...
      print("Running inference...")
      mask, rooftop_pixels = infer_full_mask(model, image)
      rooftop_area = rooftop_pixels * PIXEL_AREA_M2
      print("Rooftop Pixels:", rooftop_pixels)
      print("Estimated Rooftop Area:", round(rooftop_area, 2), "m\<^sup>2")
      ... plotting, plt.savefig("results.png", ...) ...
      print(f"RESULTS_START")
      print(f"ROOFTOP_PIXELS:{rooftop_pixels}")
      print(f"ROOFTOP_AREA:{rooftop_area:.2f}")
      print(f"RESULTS_END")
  \<close>
  \<open>main\<close> gives the text written to standard output and how it ended: normally, or with
  the exception that escaped.
\<close>

definition main :: "env \<Rightarrow> string \<Rightarrow> string \<times> (py_error + unit)" where
  "main env image_path =
     (let out1 = print ''Loading model...'' in
      case load_model env of
        Inl e \<Rightarrow> (out1, Inl e)
      | Inr model \<Rightarrow>
          (let out2 = out1 @ print ''Reading image...'' in
           case read_image (raster_at env image_path) of
             Inl e \<Rightarrow> (out2, Inl e)
           | Inr img \<Rightarrow>
               (let out3 = out2 @ print ''Running inference...'' in
                case infer_full_mask model img of
                  Inl e \<Rightarrow> (out3, Inl e)
                | Inr (msk, rooftop_pixels) \<Rightarrow>
                    (let rooftop_area = int_times_float rooftop_pixels PIXEL_AREA_M2;
                         out4 = out3 @
                           print (''Rooftop Pixels: '' @ str_nat rooftop_pixels) @
                           print (''Estimated Rooftop Area: '' @ str_round2 env rooftop_area @
                                  [CHR '' '', CHR ''m'', CHR 0xC2, CHR 0xB2])
                     in
                     case save_plot env img msk rooftop_area of
                       Some e \<Rightarrow> (out4, Inl e)
                     | None \<Rightarrow>
                         (out4 @
                          print ''RESULTS_START'' @
                          print (''ROOFTOP_PIXELS:'' @ str_nat rooftop_pixels) @
                          print (''ROOFTOP_AREA:'' @ format_2f rooftop_area) @
                          print ''RESULTS_END'', Inr ())))))"

text \<open>
  \<^verbatim>\<open>
  if __name__ == "__main__":
      if len(sys.argv) != 2:
          print("Usage: python modeltester_UI.py <image_path>")
          sys.exit(1)
      image_path = sys.argv[1]
      if not os.path.exists(image_path):
          print(f"Error: Image file {image_path} not found")
          sys.exit(1)
      main(image_path)
  \<close>
  A run gives the standard output and the exit status: 1 from \<^verbatim>\<open>sys.exit(1)\<close>, 1 when
  an exception escapes \<open>main\<close>, 0 otherwise.
\<close>

definition run :: "env \<Rightarrow> string list \<Rightarrow> string \<times> nat" where
  "run env argv =
     (if length argv \<noteq> 2 then (print ''Usage: python modeltester_UI.py <image_path>'', 1)
      else
        (let image_path = argv ! 1 in
         if \<not> path_exists env image_path
         then (print (''Error: Image file '' @ image_path @ '' not found''), 1)
         else
           (case main env image_path of
              (out, Inl e) \<Rightarrow> (out, 1)
            | (out, Inr u) \<Rightarrow> (out, 0))))"

section \<open>The caller's parsing of the output\<close>

text \<open>\<^verbatim>\<open>s.split(c)\<close> for a one-character separator, and \<^verbatim>\<open>s.startswith(p)\<close>.\<close>

fun split_on :: "char \<Rightarrow> string \<Rightarrow> string list" where
  "split_on sep [] = [[]]"
| "split_on sep (x # xs) =
     (if x = sep then [] # split_on sep xs
      else (case split_on sep xs of
              [] \<Rightarrow> [[x]]
            | w # ws \<Rightarrow> (x # w) # ws))"

fun startswith :: "string \<Rightarrow> string \<Rightarrow> bool" where
  "startswith s [] = True"
| "startswith [] (p # ps) = False"
| "startswith (x # xs) (p # ps) = (x = p \<and> startswith xs ps)"

text \<open>\<^verbatim>\<open>line.split(":")[1]\<close>; a list with fewer than two items raises \<^verbatim>\<open>IndexError\<close>.\<close>

definition second_field :: "string \<Rightarrow> py_error + string" where
  "second_field line =
     (case split_on (CHR '':'') line of
        a # b # rest \<Rightarrow> Inr b
      | _ \<Rightarrow> Inl IndexError)"

text \<open>
  \<^verbatim>\<open>int(s)\<close> and \<^verbatim>\<open>float(s)\<close> on the texts the runner prints: surrounding ASCII white
  space, an optional sign, decimal digits, and for \<^verbatim>\<open>float\<close> an optional fraction.
  Python accepts further forms (digit separators, exponents, \<^verbatim>\<open>inf\<close>, \<^verbatim>\<open>nan\<close>,
  non-ASCII digits and spaces) that the runner never prints; on those the model answers
  \<^verbatim>\<open>ValueError\<close>. The float is the double nearest to the decimal value.
\<close>

definition is_space :: "char \<Rightarrow> bool" where
  "is_space c = (c \<in> set [CHR '' '', CHR 0x09, CHR 0x0A, CHR 0x0B, CHR 0x0C, CHR 0x0D])"

definition strip :: "string \<Rightarrow> string" where
  "strip s = rev (dropWhile is_space (rev (dropWhile is_space s)))"

definition is_digit :: "char \<Rightarrow> bool" where
  "is_digit c = ((48::nat) \<le> of_char c \<and> of_char c \<le> (57::nat))"

definition digits_value :: "string \<Rightarrow> nat" where
  "digits_value ds = foldl (\<lambda>acc c. 10 * acc + (of_char c - (48::nat))) 0 ds"

definition unsigned_int :: "string \<Rightarrow> py_error + int" where
  "unsigned_int ds =
     (if ds \<noteq> [] \<and> list_all is_digit ds then Inr (int (digits_value ds)) else Inl ValueError)"

definition py_int :: "string \<Rightarrow> py_error + int" where
  "py_int s =
     (case strip s of
        [] \<Rightarrow> Inl ValueError
      | c # cs \<Rightarrow>
          if c = CHR ''-'' then map_sum id uminus (unsigned_int cs)
          else if c = CHR ''+'' then unsigned_int cs
          else unsigned_int (c # cs))"

definition unsigned_decimal :: "string \<Rightarrow> py_error + rat" where
  "unsigned_decimal t =
     (let ip = takeWhile is_digit t; rest = dropWhile is_digit t in
      case rest of
        [] \<Rightarrow> if ip = [] then Inl ValueError else Inr (of_nat (digits_value ip))
      | c # fp \<Rightarrow>
          if c = CHR ''.'' \<and> list_all is_digit fp \<and> (ip \<noteq> [] \<or> fp \<noteq> [])
          then Inr (of_nat (digits_value (ip @ fp)) / 10 ^ length fp)
          else Inl ValueError)"

definition py_float :: "string \<Rightarrow> py_error + rat" where
  "py_float s =
     (case strip s of
        [] \<Rightarrow> Inl ValueError
      | c # cs \<Rightarrow>
          if c = CHR ''-'' then map_sum id (\<lambda>v. to_double (- v)) (unsigned_decimal cs)
          else if c = CHR ''+'' then map_sum id to_double (unsigned_decimal cs)
          else map_sum id to_double (unsigned_decimal (c # cs)))"

text \<open>
  \<^verbatim>\<open>
  output_lines = result.stdout.split('\n')
  rooftop_pixels = None
  rooftop_area = None
  for line in output_lines:
      if line.startswith("ROOFTOP_PIXELS:"):
          rooftop_pixels = int(line.split(":")[1])
      elif line.startswith("ROOFTOP_AREA:"):
          rooftop_area = float(line.split(":")[1])
  \<close>
  from the handler of the run button in \<^verbatim>\<open>helioscopefinal_mit.py\<close>, which runs this
  when the return code is 0. An exception of \<^verbatim>\<open>int\<close> or \<^verbatim>\<open>float\<close> ends the loop.
\<close>

fun scan_lines ::
  "string list \<Rightarrow> int option \<times> rat option \<Rightarrow> py_error + (int option \<times> rat option)" where
  "scan_lines [] acc = Inr acc"
| "scan_lines (line # rest) (rooftop_pixels, rooftop_area) =
     (if startswith line ''ROOFTOP_PIXELS:'' then
        (case second_field line of
           Inl e \<Rightarrow> Inl e
         | Inr t \<Rightarrow>
             (case py_int t of
                Inl e \<Rightarrow> Inl e
              | Inr v \<Rightarrow> scan_lines rest (Some v, rooftop_area)))
      else if startswith line ''ROOFTOP_AREA:'' then
        (case second_field line of
           Inl e \<Rightarrow> Inl e
         | Inr t \<Rightarrow>
             (case py_float t of
                Inl e \<Rightarrow> Inl e
              | Inr v \<Rightarrow> scan_lines rest (rooftop_pixels, Some v)))
      else scan_lines rest (rooftop_pixels, rooftop_area))"

definition parse_output :: "string \<Rightarrow> py_error + (int option \<times> rat option)" where
  "parse_output stdout = scan_lines (split_on newline stdout) (None, None)"

text \<open>
  A RESULTS block in a text: four consecutive lines, \<^verbatim>\<open>RESULTS_START\<close>, a line that
  starts with \<^verbatim>\<open>ROOFTOP_PIXELS:\<close>, a line that starts with \<^verbatim>\<open>ROOFTOP_AREA:\<close>, and
  \<^verbatim>\<open>RESULTS_END\<close>.
\<close>

fun block_here :: "string list \<Rightarrow> bool" where
  "block_here (a # b # c # d # rest) =
     (a = ''RESULTS_START'' \<and> startswith b ''ROOFTOP_PIXELS:'' \<and>
      startswith c ''ROOFTOP_AREA:'' \<and> d = ''RESULTS_END'')"
| "block_here ls = False"

fun block_in :: "string list \<Rightarrow> bool" where
  "block_in [] = False"
| "block_in (l # ls) = (block_here (l # ls) \<or> block_in ls)"

definition has_results_block :: "string \<Rightarrow> bool" where
  "has_results_block stdout = block_in (split_on newline stdout)"

section \<open>Auxiliary notions for the statements\<close>

text \<open>The offsets along one axis of extent \<open>n\<close>: the multiples of 128 that leave room for a
  whole patch.\<close>

definition tile_offsets :: "nat \<Rightarrow> nat list" where
  "tile_offsets n = map (\<lambda>i. i * 128) [0 ..< n div 128]"

text \<open>The patch of side \<open>sz\<close> at an offset, as \<open>extract_patches\<close> cuts it.\<close>

definition tile :: "image \<Rightarrow> nat \<Rightarrow> nat \<times> nat \<Rightarrow> image" where
  "tile img sz pos = slice2 img (fst pos) (fst pos + sz) (snd pos) (snd pos + sz)"

text \<open>\<^verbatim>\<open>np.sum(pred_mask == 1)\<close> for the prediction on one patch.\<close>

definition patch_count :: "model \<Rightarrow> image \<Rightarrow> nat" where
  "patch_count model patch =
     (case predict model patch of Inl e \<Rightarrow> 0 | Inr pred_mask \<Rightarrow> count_eq pred_mask 1)"

text \<open>The patches and the offsets \<open>infer_full_mask\<close> receives from \<open>extract_patches\<close>.\<close>

definition patches_of :: "image \<Rightarrow> image list" where
  "patches_of img =
     (case extract_patches img PATCH_SIZE STRIDE of
        Inl e \<Rightarrow> []
      | Inr (patches, positions, H, W) \<Rightarrow> patches)"

definition positions_of :: "image \<Rightarrow> (nat \<times> nat) list" where
  "positions_of img =
     (case extract_patches img PATCH_SIZE STRIDE of
        Inl e \<Rightarrow> []
      | Inr (patches, positions, H, W) \<Rightarrow> positions)"

text \<open>The two messages of the entry point.\<close>

definition usage_message :: string where
  "usage_message = ''Usage: python modeltester_UI.py <image_path>''"

definition not_found_message :: "string \<Rightarrow> string" where
  "not_found_message image_path = ''Error: Image file '' @ image_path @ '' not found''"

text \<open>A file that is unreadable or has fewer than three bands.\<close>

definition unreadable_or_few_bands :: "raster \<Rightarrow> bool" where
  "unreadable_or_few_bands f = (case f of Unreadable \<Rightarrow> True | Dataset n h w s \<Rightarrow> n < 3)"

text \<open>
  The area the runner computes from a pixel count, the progress lines of a run that
  reaches the report, and the number of hundredths in a non-negative value rounded to two
  decimals (ties to even).
\<close>

definition rooftop_area_of :: "nat \<Rightarrow> rat" where
  "rooftop_area_of rooftop_pixels = int_times_float rooftop_pixels PIXEL_AREA_M2"

definition progress_lines :: "env \<Rightarrow> nat \<Rightarrow> string list" where
  "progress_lines env rooftop_pixels =
     [''Loading model...'', ''Reading image...'', ''Running inference...'',
      ''Rooftop Pixels: '' @ str_nat rooftop_pixels,
      ''Estimated Rooftop Area: '' @ str_round2 env (rooftop_area_of rooftop_pixels) @
        [CHR '' '', CHR ''m'', CHR 0xC2, CHR 0xB2]]"

definition hundredths :: "rat \<Rightarrow> nat" where
  "hundredths x = nat (round_half_even (x * 100))"

text \<open>A line the caller's scan skips: it starts with neither prefix.\<close>

definition skipped :: "string \<Rightarrow> bool" where
  "skipped line =
     (\<not> startswith line ''ROOFTOP_PIXELS:'' \<and> \<not> startswith line ''ROOFTOP_AREA:'')"

section \<open>Properties of the tiler\<close>

lemma int_le_div_iff: "0 < b \<Longrightarrow> m \<le> a div b \<longleftrightarrow> m * b \<le> a" for a b m :: int
proof
  assume b: "0 < b" and "m \<le> a div b"
  then have "m * b \<le> (a div b) * b" by (simp add: mult_right_mono)
  also have "\<dots> \<le> a" using b by (metis mult.commute pos_mod_sign mult_div_mod_eq le_add_same_cancel1)
  finally show "m * b \<le> a" .
next
  assume b: "0 < b" and "m * b \<le> a"
  then have "(m * b) div b \<le> a div b" by (rule_tac zdiv_mono1)
  then show "m \<le> a div b" using b by simp
qed

lemma py_range_mult:
  "0 < step \<Longrightarrow> py_range (k * step) stop step =
     map (\<lambda>i. i * step) [k ..< nat ((stop + int step - 1) div int step)]"
proof (induction "k * step" stop step arbitrary: k rule: py_range.induct)
  case (1 stop step)
  let ?n = "nat ((stop + int step - 1) div int step)"
  have pos: "0 < int step" using 1 by simp
  have key: "int (k * step) < stop \<longleftrightarrow> k < ?n"
  proof -
    have "k < ?n \<longleftrightarrow> int k + 1 \<le> (stop + int step - 1) div int step" by linarith
    also have "\<dots> \<longleftrightarrow> (int k + 1) * int step \<le> stop + int step - 1"
      using pos by (rule int_le_div_iff)
    also have "\<dots> \<longleftrightarrow> int (k * step) < stop" by (auto simp add: algebra_simps)
    finally show ?thesis by simp
  qed
  show ?case
  proof (cases "int (k * step) < stop")
    case True
    then have lt: "k < ?n" using key by simp
    have rec: "py_range (Suc k * step) stop step = map (\<lambda>i. i * step) [Suc k ..< ?n]"
      using 1(1)[of "Suc k"] 1(2) True by (simp add: add.commute)
    have "py_range (k * step) stop step = (k * step) # py_range (Suc k * step) stop step"
      using True 1(2) by (subst py_range.simps) (simp add: add.commute)
    also have "\<dots> = map (\<lambda>i. i * step) [k ..< ?n]"
      using lt rec by (simp add: upt_conv_Cons)
    finally show ?thesis .
  next
    case False
    then have "?n \<le> k" using key by simp
    moreover have "py_range (k * step) stop step = []"
      using False by (subst py_range.simps) simp
    ultimately show ?thesis by simp
  qed
qed

lemma py_range_tiles: "py_range 0 (int n - int 128 + 1) 128 = tile_offsets n"
proof -
  have "py_range (0 * 128) (int n - int 128 + 1) 128 =
      map (\<lambda>i. i * 128) [0 ..< nat ((int n - int 128 + 1 + int 128 - 1) div int 128)]"
    by (rule py_range_mult) simp
  moreover have "nat ((int n - int 128 + 1 + int 128 - 1) div int 128) = n div 128"
    by (simp add: zdiv_int[symmetric] del: zdiv_int) 
  ultimately show ?thesis by (simp add: tile_offsets_def)
qed

lemma patches_x_loop_eq:
  "patches_x_loop img sz y xs (ps, qs) =
     (ps @ map (\<lambda>x. tile img sz (y, x)) xs, qs @ map (Pair y) xs)"
  by (induction xs arbitrary: ps qs) (simp_all add: tile_def)

lemma patches_y_loop_eq:
  "patches_y_loop img sz ys xs (ps, qs) =
     (ps @ map (tile img sz) (List.product ys xs), qs @ List.product ys xs)"
  by (induction ys arbitrary: ps qs) (simp_all add: patches_x_loop_eq comp_def)

lemma extract_patches_eq:
  "0 < stride \<Longrightarrow> extract_patches img sz stride =
     (let positions = List.product (py_range 0 (int (nrows img) - int sz + 1) stride)
                                   (py_range 0 (int (ncols img) - int sz + 1) stride)
      in Inr (map (tile img sz) positions, positions, nrows img, ncols img))"
  by (simp add: extract_patches_def patches_y_loop_eq Let_def)

lemma extract_patches_128:
  "extract_patches img 128 128 =
     Inr (map (tile img 128) (List.product (tile_offsets (nrows img)) (tile_offsets (ncols img))),
          List.product (tile_offsets (nrows img)) (tile_offsets (ncols img)),
          nrows img, ncols img)"
  using py_range_tiles by (simp add: extract_patches_eq Let_def)

lemma tile_offsets_bound: "y \<in> set (tile_offsets n) \<Longrightarrow> y + 128 \<le> n div 128 * 128"
  by (auto simp: tile_offsets_def)

text \<open>
  Claim C1. For every image with height and width at least 128, \<open>extract_patches\<close> with
  patch size 128 and stride 128 returns exactly \<open>(H div 128) * (W div 128)\<close> patches, each
  the 128 by 128 block at its offset. No patch covers a pixel of the border, that is a
  pixel whose row is at or beyond \<open>(H div 128) * 128\<close> or whose column is at or beyond
  \<open>(W div 128) * 128\<close>. A 200 by 200 image gives exactly one patch, at offset \<open>(0, 0)\<close>.
\<close>

theorem extract_patches_count:
  assumes "128 \<le> nrows img" and "128 \<le> ncols img"
  shows "\<exists>patches positions.
      extract_patches img 128 128 = Inr (patches, positions, nrows img, ncols img) \<and>
      length patches = (nrows img div 128) * (ncols img div 128) \<and>
      length positions = length patches \<and>
      patches = map (\<lambda>(y, x). slice2 img y (y + 128) x (x + 128)) positions \<and>
      (\<forall>pos \<in> set positions. \<forall>px. covers pos px \<longrightarrow>
          fst px < (nrows img div 128) * 128 \<and> snd px < (ncols img div 128) * 128) \<and>
      (nrows img = 200 \<and> ncols img = 200 \<longrightarrow> patches = [slice2 img 0 128 0 128] \<and> positions = [(0, 0)])"
proof -
  let ?ps = "List.product (tile_offsets (nrows img)) (tile_offsets (ncols img))"
  have len: "length ?ps = (nrows img div 128) * (ncols img div 128)"
    by (simp add: tile_offsets_def)
  have til: "map (tile img 128) ?ps = map (\<lambda>(y, x). slice2 img y (y + 128) x (x + 128)) ?ps"
    by (rule map_cong) (auto simp: tile_def)
  have cov: "fst px < (nrows img div 128) * 128 \<and> snd px < (ncols img div 128) * 128"
    if "pos \<in> set ?ps" "covers pos px" for pos px
  proof -
    have "fst pos + 128 \<le> nrows img div 128 * 128" "snd pos + 128 \<le> ncols img div 128 * 128"
      using that(1) tile_offsets_bound by auto
    then show ?thesis using that(2) by (simp add: covers_def PATCH_SIZE_def)
  qed
  have sc: "?ps = [(0, 0)]" if "nrows img = 200" "ncols img = 200"
    using that by (simp add: tile_offsets_def)
  show ?thesis
    apply (rule exI[of _ "map (tile img 128) ?ps"], rule exI[of _ ?ps])
    using len til cov sc by (auto simp add: extract_patches_128 tile_def)
qed

theorem extract_patches_count_witness:
  "\<exists>patches positions.
      extract_patches \<lparr>nrows = 200, ncols = 200, cell = (\<lambda>r c. (0, 0, 0))\<rparr> 128 128 =
        Inr (patches, positions, 200, 200) \<and>
      length patches = 1 \<and> positions = [(0, 0)] \<and> (200::nat) div 128 * (200 div 128) = 1"
  using extract_patches_count [of "\<lparr>nrows = 200, ncols = 200, cell = (\<lambda>r c. (0, 0, 0))\<rparr>"]
  by simp

lemma upt_0_2: "[0 ..< (2::nat)] = [0, 1]"
  by code_simp

text \<open>
  Claim C7. For a 256 by 256 image, patch size 128 and stride 128, \<open>extract_patches\<close>
  gives exactly four patches; their offsets, in generation order, are \<open>(0, 0)\<close>,
  \<open>(0, 128)\<close>, \<open>(128, 0)\<close>, \<open>(128, 128)\<close>: the tiling starts at \<open>(0, 0)\<close> and advances
  along the width first, then the height.
\<close>

theorem extract_patches_256:
  assumes "nrows img = 256" and "ncols img = 256"
  shows "\<exists>patches.
      extract_patches img 128 128 = Inr (patches, [(0, 0), (0, 128), (128, 0), (128, 128)], 256, 256) \<and>
      patches = [slice2 img 0 128 0 128, slice2 img 0 128 128 256,
                 slice2 img 128 256 0 128, slice2 img 128 256 128 256]"
  using assms by (simp add: extract_patches_128 tile_offsets_def tile_def upt_0_2)

theorem extract_patches_256_witness:
  "\<exists>patches.
      extract_patches \<lparr>nrows = 256, ncols = 256, cell = (\<lambda>r c. (0, 0, 0))\<rparr> 128 128 =
        Inr (patches, [(0, 0), (0, 128), (128, 0), (128, 128)], 256, 256) \<and> length patches = 4"
  using extract_patches_256 [of "\<lparr>nrows = 256, ncols = 256, cell = (\<lambda>r c. (0, 0, 0))\<rparr>"]
  by simp

section \<open>Properties of inference and stitching\<close>

lemma predict_Inr:
  "model patch = Inr f \<Longrightarrow>
     predict model patch = Inr \<lparr>nrows = 128, ncols = 128, cell = f\<rparr>"
  by (simp add: predict_def PATCH_SIZE_def)

lemma predict_Inr_iff:
  "predict model patch = Inr pm \<longleftrightarrow>
     (\<exists>f. model patch = Inr f \<and> pm = \<lparr>nrows = 128, ncols = 128, cell = f\<rparr>)"
  by (auto simp add: predict_def PATCH_SIZE_def split: sum.splits)

lemma assign_slice_block:
  assumes "y + 128 \<le> nrows m" and "x + 128 \<le> ncols m"
  shows "assign_slice m y (y + PATCH_SIZE) x (x + PATCH_SIZE) \<lparr>nrows = 128, ncols = 128, cell = f\<rparr> =
     Inr (m\<lparr>cell := (\<lambda>r c. if covers (y, x) (r, c) then of_nat (f (r - y) (c - x)) else cell m r c)\<rparr>)"
  using assms
  by (auto simp add: assign_slice_def slice2_def covers_def PATCH_SIZE_def Let_def fun_eq_iff
      intro!: arg_cong[where f="\<lambda>g. m\<lparr>cell := g\<rparr>"])

lemma assign_slice_Inr:
  assumes "assign_slice m y (y + PATCH_SIZE) x (x + PATCH_SIZE) \<lparr>nrows = 128, ncols = 128, cell = f\<rparr> = Inr m'"
  shows "m' = m\<lparr>cell := (\<lambda>r c. if covers (y, x) (r, c) then of_nat (f (r - y) (c - x)) else cell m r c)\<rparr>"
  using assms
  by (auto simp add: assign_slice_def slice2_def covers_def PATCH_SIZE_def Let_def fun_eq_iff
      split: if_splits intro!: arg_cong[where f="\<lambda>g. m\<lparr>cell := g\<rparr>"])



lemma patch_count_Inr:
  "model patch = Inr f \<Longrightarrow>
     patch_count model patch = count_eq \<lparr>nrows = 128, ncols = 128, cell = f\<rparr> 1"
  by (simp add: patch_count_def predict_Inr)

lemma infer_loop_runs:
  assumes "\<forall>(p, pos) \<in> set qs.
      fst pos + 128 \<le> nrows m \<and> snd pos + 128 \<le> ncols m \<and> (\<exists>f. model p = Inr f)"
  shows "\<exists>m'. infer_loop model qs (m, t) =
        Inr (m', t + sum_list (map (\<lambda>(p, pos). patch_count model p) qs)) \<and>
      nrows m' = nrows m \<and> ncols m' = ncols m"
  using assms
proof (induction qs arbitrary: m t)
  case Nil
  then show ?case by simp
next
  case (Cons q qs)
  obtain p y x where q: "q = (p, (y, x))" by (cases q) auto
  from Cons.prems q obtain f where f: "model p = Inr f"
    and b: "y + 128 \<le> nrows m" "x + 128 \<le> ncols m" by auto
  let ?m1 = "m\<lparr>cell := (\<lambda>r c. if covers (y, x) (r, c) then of_nat (f (r - y) (c - x)) else cell m r c)\<rparr>"
  have "\<forall>(p, pos) \<in> set qs.
      fst pos + 128 \<le> nrows ?m1 \<and> snd pos + 128 \<le> ncols ?m1 \<and> (\<exists>f. model p = Inr f)"
    using Cons.prems by auto
  from Cons.IH[OF this, of "t + patch_count model p"]
  obtain m' where "infer_loop model qs (?m1, t + patch_count model p) =
        Inr (m', t + patch_count model p + sum_list (map (\<lambda>(p, pos). patch_count model p) qs))"
     and "nrows m' = nrows m" "ncols m' = ncols m" by auto
  then show ?case
    using q f b by (simp add: predict_Inr assign_slice_block patch_count_Inr add.assoc)
qed

lemma infer_loop_outside:
  assumes "infer_loop model qs (m, t) = Inr (m', t')"
  shows "nrows m' = nrows m \<and> ncols m' = ncols m \<and>
    (\<forall>r c. (\<forall>(p, pos) \<in> set qs. \<not> covers pos (r, c)) \<longrightarrow> cell m' r c = cell m r c)"
  using assms
proof (induction qs arbitrary: m t)
  case Nil
  then show ?case by simp
next
  case (Cons q qs)
  obtain p y x where q: "q = (p, (y, x))" by (cases q) auto
  from Cons.prems q obtain pm m1 where pm: "predict model p = Inr pm"
    and m1: "assign_slice m y (y + PATCH_SIZE) x (x + PATCH_SIZE) pm = Inr m1"
    and rest: "infer_loop model qs (m1, t + count_eq pm 1) = Inr (m', t')"
    by (auto split: sum.splits)
  from pm obtain f where pmf: "pm = \<lparr>nrows = 128, ncols = 128, cell = f\<rparr>"
    by (auto simp: predict_Inr_iff)
  have m1eq: "m1 = m\<lparr>cell := (\<lambda>r c. if covers (y, x) (r, c) then of_nat (f (r - y) (c - x)) else cell m r c)\<rparr>"
    using m1 pmf assign_slice_Inr by blast
  from Cons.IH[OF rest] have ih: "nrows m' = nrows m1" "ncols m' = ncols m1"
    "\<And>r c. (\<forall>(p, pos) \<in> set qs. \<not> covers pos (r, c)) \<Longrightarrow> cell m' r c = cell m1 r c"
    by auto
  show ?case using ih q by (auto simp: m1eq)
qed

lemma length_filter_upt: "length (filter P [0 ..< n]) = card {c. c < n \<and> P c}"
proof -
  have "distinct (filter P [0 ..< n])" by simp
  then have "card (set (filter P [0 ..< n])) = length (filter P [0 ..< n])"
    by (rule distinct_card)
  moreover have "set (filter P [0 ..< n]) = {c. c < n \<and> P c}" by auto
  ultimately show ?thesis by simp
qed

lemma count_eq_card:
  "count_eq a v = card {(r, c). r < nrows a \<and> c < ncols a \<and> cell a r c = v}"
proof -
  have "count_eq a v = (\<Sum>r \<in> {..<nrows a}. card {c. c < ncols a \<and> cell a r c = v})"
    by (simp add: count_eq_def length_filter_upt interv_sum_list_conv_sum_set_nat atLeast0LessThan)
  also have "\<dots> = card (SIGMA r : {..<nrows a}. {c. c < ncols a \<and> cell a r c = v})"
    by (subst card_SigmaI) auto
  also have "(SIGMA r : {..<nrows a}. {c. c < ncols a \<and> cell a r c = v}) =
      {(r, c). r < nrows a \<and> c < ncols a \<and> cell a r c = v}"
    by auto
  finally show ?thesis .
qed

lemma finite_cells: "finite {(r, c). r < (h::nat) \<and> c < (w::nat) \<and> P r c}"
proof -
  have "{(r, c). r < h \<and> c < w \<and> P r c} \<subseteq> {..<h} \<times> {..<w}" by auto
  then show ?thesis by (rule finite_subset) simp
qed

lemma of_nat_label: "l \<le> 1 \<Longrightarrow> (of_nat l = (1 :: 8 word)) \<longleftrightarrow> l = 1"
proof -
  assume "l \<le> 1"
  then consider "l = 0" | "l = 1" by linarith
  then show ?thesis by cases simp_all
qed

lemma count_after_block:
  fixes m :: mask
  assumes b: "y + 128 \<le> nrows m" "x + 128 \<le> ncols m"
    and z: "\<And>r c. covers (y, x) (r, c) \<Longrightarrow> cell m r c = 0"
    and l: "\<And>r c. r < 128 \<Longrightarrow> c < 128 \<Longrightarrow> f r c \<le> 1"
  shows "count_eq (m\<lparr>cell := (\<lambda>r c. if covers (y, x) (r, c) then of_nat (f (r - y) (c - x)) else cell m r c)\<rparr>) 1 =
     count_eq m 1 + count_eq \<lparr>nrows = 128, ncols = 128, cell = f\<rparr> 1"
proof -
  let ?A = "{(r, c). r < nrows m \<and> c < ncols m \<and> cell m r c = 1}"
  let ?P = "{(r, c). r < 128 \<and> c < 128 \<and> f r c = 1}"
  let ?B = "(\<lambda>(r, c). (r + y, c + x)) ` ?P"
  let ?m1 = "m\<lparr>cell := (\<lambda>r c. if covers (y, x) (r, c) then of_nat (f (r - y) (c - x)) else cell m r c)\<rparr>"
  have eq: "{(r, c). r < nrows ?m1 \<and> c < ncols ?m1 \<and> cell ?m1 r c = 1} = ?A \<union> ?B"
  proof (rule set_eqI, clarify)
    fix r c
    show "(r, c) \<in> {(r, c). r < nrows ?m1 \<and> c < ncols ?m1 \<and> cell ?m1 r c = 1} \<longleftrightarrow>
        (r, c) \<in> ?A \<union> ?B"
    proof (cases "covers (y, x) (r, c)")
      case True
      then have rc: "y \<le> r" "r < y + 128" "x \<le> c" "c < x + 128"
        by (simp_all add: covers_def PATCH_SIZE_def)
      then have lab: "f (r - y) (c - x) \<le> 1" by (intro l) auto
      have inA: "(r, c) \<notin> ?A" using z[OF True] by simp
      have inB: "(r, c) \<in> ?B \<longleftrightarrow> f (r - y) (c - x) = 1"
      proof
        assume "(r, c) \<in> ?B"
        then obtain r' c' where "r = r' + y" "c = c' + x" "f r' c' = 1" by auto
        then show "f (r - y) (c - x) = 1" by simp
      next
        assume "f (r - y) (c - x) = 1"
        then have "(r - y, c - x) \<in> ?P" using rc by auto
        then have "(\<lambda>(r, c). (r + y, c + x)) (r - y, c - x) \<in> ?B" by (rule imageI)
        then show "(r, c) \<in> ?B" using rc by simp
      qed
      have bnd: "r < nrows m" "c < ncols m" using rc b by auto
      show ?thesis using True inA inB bnd of_nat_label[OF lab] by simp
    next
      case False
      have "(r, c) \<notin> ?B"
      proof
        assume "(r, c) \<in> ?B"
        then obtain r' c' where "r = r' + y" "c = c' + x" "r' < 128" "c' < 128" by auto
        then have "covers (y, x) (r, c)" by (simp add: covers_def PATCH_SIZE_def)
        with False show False by simp
      qed
      then show ?thesis using False by simp
    qed
  qed
  have disj: "?A \<inter> ?B = {}"
  proof -
    have "covers (y, x) rc" if "rc \<in> ?B" for rc
      using that by (auto simp: covers_def PATCH_SIZE_def)
    then show ?thesis using z by fastforce
  qed
  have inj: "inj_on (\<lambda>(r, c). (r + y, c + x)) ?P" by (auto simp: inj_on_def)
  have "count_eq ?m1 1 = card (?A \<union> ?B)" by (simp only: count_eq_card eq)
  also have "\<dots> = card ?A + card ?B"
    by (rule card_Un_disjoint) (use finite_cells disj in auto)
  also have "card ?B = card ?P" using inj by (rule card_image)
  finally show ?thesis by (simp add: count_eq_card)
qed

lemma patches_of_eq:
  "patches_of img = map (tile img 128) (positions_of img)"
  by (simp add: patches_of_def positions_of_def PATCH_SIZE_def STRIDE_def extract_patches_128)

lemma positions_of_eq:
  "positions_of img = List.product (tile_offsets (nrows img)) (tile_offsets (ncols img))"
  by (simp add: positions_of_def PATCH_SIZE_def STRIDE_def extract_patches_128)

lemma infer_full_mask_eq:
  "infer_full_mask model img =
     infer_loop model (zip (patches_of img) (positions_of img)) (np_zeros (nrows img) (ncols img), 0)"
  by (simp add: infer_full_mask_def patches_of_def positions_of_def PATCH_SIZE_def STRIDE_def
      extract_patches_128)

lemma zip_patches:
  "zip (patches_of img) (positions_of img) = map (\<lambda>pos. (tile img 128 pos, pos)) (positions_of img)"
  by (simp add: patches_of_eq zip_map1 zip_same_conv_map)

lemma tile_offsets_set: "set (tile_offsets n) = {y. 128 dvd y \<and> y + 128 \<le> n div 128 * 128}"
proof (rule set_eqI)
  fix y
  show "y \<in> set (tile_offsets n) \<longleftrightarrow> y \<in> {y. 128 dvd y \<and> y + 128 \<le> n div 128 * 128}"
  proof
    assume "y \<in> set (tile_offsets n)"
    then show "y \<in> {y. 128 dvd y \<and> y + 128 \<le> n div 128 * 128}"
      by (auto simp: tile_offsets_def)
  next
    assume "y \<in> {y. 128 dvd y \<and> y + 128 \<le> n div 128 * 128}"
    then obtain k where k: "y = 128 * k" and le: "y + 128 \<le> n div 128 * 128"
      by (auto simp: dvd_def)
    then have "k < n div 128" by simp
    then have "k * 128 \<in> (\<lambda>i. i * 128) ` {0 ..< n div 128}" by auto
    then show "y \<in> set (tile_offsets n)" using k by (simp add: tile_offsets_def mult.commute)
  qed
qed

lemma distinct_tile_offsets: "distinct (tile_offsets n)"
  by (simp add: tile_offsets_def distinct_map inj_on_def)

lemma distinct_positions_of: "distinct (positions_of img)"
  by (simp add: positions_of_eq distinct_product distinct_tile_offsets)

lemma positions_of_set:
  "pos \<in> set (positions_of img) \<longleftrightarrow>
     128 dvd fst pos \<and> fst pos + 128 \<le> nrows img div 128 * 128 \<and>
     128 dvd snd pos \<and> snd pos + 128 \<le> ncols img div 128 * 128"
  by (cases pos) (auto simp add: positions_of_eq tile_offsets_set)

lemma div_mult_le_self: "(n::nat) div 128 * 128 \<le> n"
  by simp

lemma positions_in_bounds:
  "pos \<in> set (positions_of img) \<Longrightarrow> fst pos + 128 \<le> nrows img \<and> snd pos + 128 \<le> ncols img"
  using div_mult_le_self[of "nrows img"] div_mult_le_self[of "ncols img"]
  by (auto simp add: positions_of_set simp del: div_mult_le_self)

lemma block_origin: "r div 128 * 128 \<le> r \<and> r < r div 128 * 128 + 128" for r :: nat
proof -
  have "r = r div 128 * 128 + r mod 128" by simp
  moreover have "r mod 128 < 128" by simp
  ultimately show ?thesis by linarith
qed

lemma aligned_origin:
  fixes a r :: nat
  assumes "128 dvd a" "a \<le> r" "r < a + 128"
  shows "a = r div 128 * 128"
proof -
  from assms(1) obtain k where k: "a = k * 128" by (auto simp: dvd_def)
  have "k \<le> r div 128" using assms(2) k by (simp add: less_eq_div_iff_mult_less_eq)
  moreover have "r div 128 < Suc k" using assms(3) k by (simp add: div_less_iff_less_mult)
  ultimately show ?thesis using k by simp
qed

lemma covered_iff:
  "(\<exists>pos \<in> set (positions_of img). covers pos (r, c)) \<longleftrightarrow>
     r < nrows img div 128 * 128 \<and> c < ncols img div 128 * 128"
proof
  assume "\<exists>pos \<in> set (positions_of img). covers pos (r, c)"
  then show "r < nrows img div 128 * 128 \<and> c < ncols img div 128 * 128"
    by (auto simp add: positions_of_set covers_def PATCH_SIZE_def)
next
  assume a: "r < nrows img div 128 * 128 \<and> c < ncols img div 128 * 128"
  let ?pos = "(r div 128 * 128, c div 128 * 128)"
  have "r div 128 < nrows img div 128" "c div 128 < ncols img div 128"
    using a by (simp_all add: div_less_iff_less_mult)
  then have "r div 128 * 128 + 128 \<le> nrows img div 128 * 128"
    "c div 128 * 128 + 128 \<le> ncols img div 128 * 128" by simp_all
  then have "?pos \<in> set (positions_of img)" by (simp add: positions_of_set)
  moreover have "covers ?pos (r, c)"
    using block_origin[of r] block_origin[of c] by (simp add: covers_def PATCH_SIZE_def)
  ultimately show "\<exists>pos \<in> set (positions_of img). covers pos (r, c)" by blast
qed

lemma covers_aligned_unique:
  assumes "128 dvd fst p" "128 dvd snd p" "128 dvd fst q" "128 dvd snd q"
    and "covers p px" "covers q px"
  shows "p = q"
proof -
  have u: "a = b" if "128 dvd a" "128 dvd b" "a \<le> r" "r < a + 128" "b \<le> r" "r < b + 128"
    for a b r :: nat
    using that aligned_origin[of a r] aligned_origin[of b r] by simp
  have "fst p = fst q" "snd p = snd q"
    using assms by (auto simp: covers_def PATCH_SIZE_def intro: u)
  then show ?thesis by (simp add: prod_eq_iff)
qed

lemma infer_loop_count:
  assumes inb: "\<And>p y x. (p, (y, x)) \<in> set qs \<Longrightarrow> y + 128 \<le> nrows m \<and> x + 128 \<le> ncols m"
    and al: "\<And>p y x. (p, (y, x)) \<in> set qs \<Longrightarrow> 128 dvd y \<and> 128 dvd x"
    and ok: "\<And>p y x. (p, (y, x)) \<in> set qs \<Longrightarrow>
        \<exists>f. model p = Inr f \<and> (\<forall>r<128. \<forall>c<128. f r c \<le> 1)"
    and ze: "\<And>p y x r c. (p, (y, x)) \<in> set qs \<Longrightarrow> covers (y, x) (r, c) \<Longrightarrow> cell m r c = 0"
    and di: "distinct (map snd qs)"
  shows "\<exists>m' t'. infer_loop model qs (m, t) = Inr (m', t') \<and>
      t' + count_eq m 1 = t + count_eq m' 1"
  using assms
proof (induction qs arbitrary: m t)
  case Nil
  then show ?case by simp
next
  case (Cons q qs)
  obtain p y x where q: "q = (p, (y, x))" by (cases q) auto
  have hd: "(p, (y, x)) \<in> set (q # qs)" using q by simp
  from Cons.prems(3)[OF hd] obtain f where f: "model p = Inr f"
    and lab: "\<And>r c. r < 128 \<Longrightarrow> c < 128 \<Longrightarrow> f r c \<le> 1" by blast
  have b: "y + 128 \<le> nrows m" "x + 128 \<le> ncols m" using Cons.prems(1)[OF hd] by simp_all
  have a: "128 dvd y" "128 dvd x" using Cons.prems(2)[OF hd] by simp_all
  have z: "\<And>r c. covers (y, x) (r, c) \<Longrightarrow> cell m r c = 0" using Cons.prems(4)[OF hd] .
  let ?m1 = "m\<lparr>cell := (\<lambda>r c. if covers (y, x) (r, c) then of_nat (f (r - y) (c - x)) else cell m r c)\<rparr>"
  let ?pm = "\<lparr>nrows = 128, ncols = 128, cell = f\<rparr>"
  have step: "count_eq ?m1 1 = count_eq m 1 + count_eq ?pm 1"
    using b z lab by (rule count_after_block)
  have tl: "(p', (y', x')) \<in> set (q # qs)" if "(p', (y', x')) \<in> set qs" for p' y' x'
    using that by simp
  have inb1: "y' + 128 \<le> nrows ?m1 \<and> x' + 128 \<le> ncols ?m1"
    if "(p', (y', x')) \<in> set qs" for p' y' x'
    using Cons.prems(1)[OF tl[OF that]] by simp
  have al1: "128 dvd y' \<and> 128 dvd x'" if "(p', (y', x')) \<in> set qs" for p' y' x'
    using Cons.prems(2)[OF tl[OF that]] .
  have ok1: "\<exists>f. model p' = Inr f \<and> (\<forall>r<128. \<forall>c<128. f r c \<le> 1)"
    if "(p', (y', x')) \<in> set qs" for p' y' x'
    using Cons.prems(3)[OF tl[OF that]] .
  have ze1: "cell ?m1 r c = 0" if mem: "(p', (y', x')) \<in> set qs" and cov: "covers (y', x') (r, c)"
    for p' y' x' r c
  proof -
    have ne: "(y', x') \<noteq> (y, x)"
    proof
      assume "(y', x') = (y, x)"
      then have "(y, x) \<in> snd ` set qs" using mem by force
      then show False using Cons.prems(5) q by simp
    qed
    have "\<not> covers (y, x) (r, c)"
    proof
      assume "covers (y, x) (r, c)"
      then have "(y', x') = (y, x)"
        using covers_aligned_unique[of "(y', x')" "(y, x)" "(r, c)"] al1[OF mem] a cov by simp
      with ne show False by simp
    qed
    then show ?thesis using Cons.prems(4)[OF tl[OF mem] cov] by simp
  qed
  have dist: "distinct (map snd qs)" using Cons.prems(5) by simp
  have "\<exists>m' t'. infer_loop model qs (?m1, t + count_eq ?pm 1) = Inr (m', t') \<and>
      t' + count_eq ?m1 1 = t + count_eq ?pm 1 + count_eq m' 1"
  proof (rule Cons.IH)
    show "y' + 128 \<le> nrows ?m1 \<and> x' + 128 \<le> ncols ?m1"
      if "(p', (y', x')) \<in> set qs" for p' y' x' using that by (rule inb1)
    show "128 dvd y' \<and> 128 dvd x'" if "(p', (y', x')) \<in> set qs" for p' y' x'
      using that by (rule al1)
    show "\<exists>f. model p' = Inr f \<and> (\<forall>r<128. \<forall>c<128. f r c \<le> 1)"
      if "(p', (y', x')) \<in> set qs" for p' y' x' using that by (rule ok1)
    show "cell ?m1 r c = 0" if "(p', (y', x')) \<in> set qs" "covers (y', x') (r, c)"
      for p' y' x' r c using that by (rule ze1)
    show "distinct (map snd qs)" by (rule dist)
  qed
  then obtain m' t' where run: "infer_loop model qs (?m1, t + count_eq ?pm 1) = Inr (m', t')"
    and cnt: "t' + count_eq ?m1 1 = t + count_eq ?pm 1 + count_eq m' 1" by blast
  have "infer_loop model (q # qs) (m, t) = Inr (m', t')"
    using q f b run by (simp add: predict_Inr assign_slice_block)
  moreover have "t' + count_eq m 1 = t + count_eq m' 1" using cnt step by simp
  ultimately show ?case by blast
qed

lemma count_eq_zeros: "count_eq (np_zeros h w) 1 = 0"
  by (simp add: count_eq_card np_zeros_def)

lemma sum_list_patch_count:
  "sum_list (map (\<lambda>(p, pos). patch_count model p) qs) = sum_list (map (patch_count model) (map fst qs))"
  by (induction qs) auto

lemma zip_set_facts:
  assumes "(p, pos) \<in> set (zip (patches_of img) (positions_of img))"
  shows "pos \<in> set (positions_of img)" and "p \<in> set (patches_of img)"
  using assms by (auto dest: set_zip_rightD set_zip_leftD)

lemma map_fst_zip_patches:
  "map fst (zip (patches_of img) (positions_of img)) = patches_of img"
  by (simp add: patches_of_eq)

lemma map_snd_zip_patches:
  "map snd (zip (patches_of img) (positions_of img)) = positions_of img"
  by (simp add: patches_of_eq)

lemma sum_list_mset_cong:
  fixes f :: "'a \<Rightarrow> nat"
  assumes "mset xs = mset ys"
  shows "sum_list (map f xs) = sum_list (map f ys)"
proof -
  have "sum_list (map f xs) = sum_mset (image_mset f (mset xs))"
    by (metis mset_map sum_mset_sum_list)
  also have "\<dots> = sum_mset (image_mset f (mset ys))" using assms by simp
  also have "\<dots> = sum_list (map f ys)" by (metis mset_map sum_mset_sum_list)
  finally show ?thesis .
qed

lemma infer_loop_any_order:
  assumes ok: "\<forall>patch \<in> set (patches_of img). \<exists>labels. model patch = Inr labels"
    and eq: "mset order = mset (zip (patches_of img) (positions_of img))"
  shows "\<exists>mask. infer_loop model order (np_zeros (nrows img) (ncols img), 0) =
      Inr (mask, sum_list (map (patch_count model) (patches_of img)))"
proof -
  let ?zs = "zip (patches_of img) (positions_of img)"
  let ?z = "np_zeros (nrows img) (ncols img)"
  have sub: "set order = set ?zs" using eq by (rule mset_eq_setD)
  have "\<forall>(p, pos) \<in> set order.
      fst pos + 128 \<le> nrows ?z \<and> snd pos + 128 \<le> ncols ?z \<and> (\<exists>f. model p = Inr f)"
  proof (clarify, intro conjI)
    fix p y x
    assume "(p, (y, x)) \<in> set order"
    then have mem: "(p, (y, x)) \<in> set ?zs" using sub by simp
    from zip_set_facts(1)[OF mem] positions_in_bounds[of "(y, x)" img]
    show "fst (y, x) + 128 \<le> nrows ?z" "snd (y, x) + 128 \<le> ncols ?z"
      by (simp_all add: np_zeros_def)
    from zip_set_facts(2)[OF mem] ok show "\<exists>f. model p = Inr f" by blast
  qed
  from infer_loop_runs[OF this, of 0]
  obtain m' where run: "infer_loop model order (?z, 0) =
      Inr (m', sum_list (map (\<lambda>(p, pos). patch_count model p) order))" by auto
  have "sum_list (map (\<lambda>(p, pos). patch_count model p) order) =
      sum_list (map (\<lambda>(p, pos). patch_count model p) ?zs)"
    using eq by (rule sum_list_mset_cong)
  also have "\<dots> = sum_list (map (patch_count model) (patches_of img))"
    by (simp add: sum_list_patch_count map_fst_zip_patches)
  finally show ?thesis using run by auto
qed

lemma infer_full_mask_total:
  assumes "\<forall>patch \<in> set (patches_of img). \<exists>labels. model patch = Inr labels"
  shows "\<exists>mask. infer_full_mask model img =
      Inr (mask, sum_list (map (patch_count model) (patches_of img)))"
  using infer_loop_any_order[OF assms, of "zip (patches_of img) (positions_of img)"]
  by (simp add: infer_full_mask_eq)

text \<open>
  Claim C2. When the network returns on every patch, the rooftop pixel count returned by
  \<open>infer_full_mask\<close> is the sum, over the generated patches, of the number of cells equal to
  1 in that patch's predicted mask (\<open>patch_count\<close>). The total does not depend on the order
  of processing: the loop of \<open>infer_full_mask\<close>, run on any permutation of the
  (patch, offset) pairs from the same all-zero mask, returns the same total.
\<close>

theorem rooftop_count_is_sum:
  assumes "\<forall>patch \<in> set (patches_of img). \<exists>labels. model patch = Inr labels"
  shows "(\<exists>mask. infer_full_mask model img =
            Inr (mask, sum_list (map (patch_count model) (patches_of img)))) \<and>
    (\<forall>order. mset order = mset (zip (patches_of img) (positions_of img)) \<longrightarrow>
       (\<exists>mask. infer_loop model order (np_zeros (nrows img) (ncols img), 0) =
            Inr (mask, sum_list (map (patch_count model) (patches_of img)))))"
  using infer_full_mask_total[OF assms] infer_loop_any_order[OF assms] by blast

lemma count_eq_const: "count_eq \<lparr>nrows = h, ncols = w, cell = (\<lambda>r c. v)\<rparr> v = h * w"
  by (simp add: count_eq_card)

lemma patches_of_one_row:
  "patches_of \<lparr>nrows = 128, ncols = 256, cell = f\<rparr> =
     [slice2 \<lparr>nrows = 128, ncols = 256, cell = f\<rparr> 0 128 0 128,
      slice2 \<lparr>nrows = 128, ncols = 256, cell = f\<rparr> 0 128 128 256]"
  by (simp add: patches_of_eq positions_of_eq tile_offsets_def tile_def upt_0_2)

theorem rooftop_count_is_sum_witness:
  "\<exists>mask. infer_full_mask (\<lambda>patch. Inr (\<lambda>r c. 1))
       \<lparr>nrows = 128, ncols = 256, cell = (\<lambda>r c. (0, 0, 0))\<rparr> = Inr (mask, 32768)"
  using rooftop_count_is_sum [of "\<lparr>nrows = 128, ncols = 256, cell = (\<lambda>r c. (0, 0, 0))\<rparr>"
      "\<lambda>patch. Inr (\<lambda>r c. 1)"]
  by (simp add: patches_of_one_row patch_count_Inr count_eq_const)

lemma infer_full_mask_returns:
  assumes "\<forall>patch \<in> set (patches_of img). \<exists>labels. model patch = Inr labels"
  shows "\<exists>mask total. infer_full_mask model img = Inr (mask, total)"
proof -
  let ?zs = "zip (patches_of img) (positions_of img)"
  let ?z = "np_zeros (nrows img) (ncols img)"
  have "\<forall>(p, pos) \<in> set ?zs.
      fst pos + 128 \<le> nrows ?z \<and> snd pos + 128 \<le> ncols ?z \<and> (\<exists>f. model p = Inr f)"
  proof (clarify, intro conjI)
    fix p y x
    assume mem: "(p, (y, x)) \<in> set ?zs"
    from zip_set_facts(1)[OF mem] positions_in_bounds[of "(y, x)" img]
    show "fst (y, x) + 128 \<le> nrows ?z" "snd (y, x) + 128 \<le> ncols ?z"
      by (simp_all add: np_zeros_def)
    from zip_set_facts(2)[OF mem] assms show "\<exists>f. model p = Inr f" by blast
  qed
  from infer_loop_runs[OF this, of 0] show ?thesis
    by (auto simp add: infer_full_mask_eq)
qed

lemma infer_full_mask_outside:
  assumes "infer_full_mask model img = Inr (m, t)"
  shows "nrows m = nrows img" and "ncols m = ncols img"
    and "\<forall>pos \<in> set (positions_of img). \<not> covers pos (r, c) \<Longrightarrow> cell m r c = 0"
proof -
  let ?zs = "zip (patches_of img) (positions_of img)"
  let ?z = "np_zeros (nrows img) (ncols img)"
  from assms have run: "infer_loop model ?zs (?z, 0) = Inr (m, t)"
    by (simp add: infer_full_mask_eq)
  note out = infer_loop_outside[OF run]
  show "nrows m = nrows img" "ncols m = ncols img"
    using out by (simp_all add: np_zeros_def)
  assume nc: "\<forall>pos \<in> set (positions_of img). \<not> covers pos (r, c)"
  have "\<forall>(p, pos) \<in> set ?zs. \<not> covers pos (r, c)"
    using nc by (auto dest: set_zip_rightD)
  then have "cell m r c = cell ?z r c" using out by blast
  then show "cell m r c = 0" by (simp add: np_zeros_def)
qed

text \<open>
  Claim C3, as the code has it. The stitched mask has the dimensions of the image,
  \<open>H\<close> by \<open>W\<close> (not \<open>(H div 128) * 128\<close> by \<open>(W div 128) * 128\<close>: the mask is allocated
  with \<^verbatim>\<open>np.zeros((H, W))\<close>). A cell is covered by a generated patch exactly when it lies
  in the tiled region, rows below \<open>(H div 128) * 128\<close> and columns below
  \<open>(W div 128) * 128\<close>; every cell of the mask that no generated patch covers holds 0.
\<close>

theorem stitched_mask_shape:
  assumes "\<forall>patch \<in> set (patches_of img). \<exists>labels. model patch = Inr labels"
  shows "\<exists>mask total. infer_full_mask model img = Inr (mask, total) \<and>
     nrows mask = nrows img \<and> ncols mask = ncols img \<and>
     (\<forall>r c. r < nrows img \<and> c < ncols img \<longrightarrow>
        ((\<exists>pos \<in> set (positions_of img). covers pos (r, c)) \<longleftrightarrow>
           r < nrows img div 128 * 128 \<and> c < ncols img div 128 * 128) \<and>
        ((\<forall>pos \<in> set (positions_of img). \<not> covers pos (r, c)) \<longrightarrow> cell mask r c = 0))"
proof -
  from infer_full_mask_returns[OF assms]
  obtain m t where run: "infer_full_mask model img = Inr (m, t)" by blast
  show ?thesis
    using run infer_full_mask_outside[OF run] covered_iff[of img] by auto
qed

theorem stitched_mask_shape_witness:
  "\<exists>mask total.
     infer_full_mask (\<lambda>patch. Inr (\<lambda>r c. 1))
       \<lparr>nrows = 200, ncols = 200, cell = (\<lambda>r c. (0, 0, 0))\<rparr> = Inr (mask, total) \<and>
     nrows mask = 200 \<and> ncols mask = 200 \<and> cell mask 150 20 = 0"
proof -
  let ?img = "\<lparr>nrows = 200, ncols = 200, cell = (\<lambda>r c. (0, 0, 0))\<rparr> :: image"
  have pos: "positions_of ?img = [(0, 0)]"
    by (simp add: positions_of_eq tile_offsets_def)
  have nc: "\<not> covers (0, 0) (150, 20)" by (simp add: covers_def PATCH_SIZE_def)
  have "\<forall>patch \<in> set (patches_of ?img). \<exists>labels. (\<lambda>patch. Inr (\<lambda>r c. 1)) patch = (Inr labels :: py_error + (nat \<Rightarrow> nat \<Rightarrow> nat))"
    by simp
  from stitched_mask_shape [of ?img "\<lambda>patch. Inr (\<lambda>r c. 1)", OF this]
  obtain m t where run: "infer_full_mask (\<lambda>patch. Inr (\<lambda>r c. 1)) ?img = Inr (m, t)"
    and sh: "nrows m = 200" "ncols m = 200"
    and out: "\<And>r c. r < 200 \<and> c < 200 \<Longrightarrow>
        (\<forall>pos \<in> set (positions_of ?img). \<not> covers pos (r, c)) \<longrightarrow> cell m r c = 0"
    by auto
  have "cell m 150 20 = 0" using out[of 150 20] pos nc by simp
  then show ?thesis using run sh by blast
qed

text \<open>
  Claim C3 as stated fails: for a 200 by 200 image the mask returned is 200 by 200, and
  \<open>(200 div 128) * 128 = 128\<close>.
\<close>

theorem stitched_mask_shape_counterexample:
  "map_sum id (\<lambda>(mask, total). (nrows mask, ncols mask))
     (infer_full_mask (\<lambda>patch. Inr (\<lambda>r c. 0))
        \<lparr>nrows = 200, ncols = 200, cell = (\<lambda>r c. (0, 0, 0))\<rparr>) = Inr (200, 200) \<and>
   (200, 200) \<noteq> (200 div 128 * 128 :: nat, 200 div 128 * 128 :: nat)"
proof -
  let ?img = "\<lparr>nrows = 200, ncols = 200, cell = (\<lambda>r c. (0, 0, 0))\<rparr> :: image"
  let ?model = "(\<lambda>patch. Inr (\<lambda>r c. 0)) :: model"
  have "\<exists>mask total. infer_full_mask ?model ?img = Inr (mask, total)"
    by (rule infer_full_mask_returns) simp
  then obtain m t where run: "infer_full_mask ?model ?img = Inr (m, t)" by blast
  from infer_full_mask_outside(1,2)[OF run] have "nrows m = 200" "ncols m = 200" by simp_all
  then show ?thesis using run by simp
qed

text \<open>
  Claim C9. For every image and every network whose output on each patch gives every
  pixel a class in \<open>{0, 1}\<close>, the total returned by \<open>infer_full_mask\<close> is the number of
  cells equal to 1 in the mask it returns. The proof is the one the claim gives: the
  offsets are distinct multiples of 128, so the blocks written are pairwise disjoint,
  and a block is still all zero when it is written.
\<close>

theorem total_equals_mask_ones:
  assumes "\<forall>patch \<in> set (patches_of img).
      \<exists>labels. model patch = Inr labels \<and> (\<forall>r<128. \<forall>c<128. labels r c \<in> {0, 1})"
  shows "\<exists>mask total. infer_full_mask model img = Inr (mask, total) \<and> total = count_eq mask 1"
proof -
  let ?zs = "zip (patches_of img) (positions_of img)"
  let ?z = "np_zeros (nrows img) (ncols img)"
  have "\<exists>m' t'. infer_loop model ?zs (?z, 0) = Inr (m', t') \<and>
      t' + count_eq ?z 1 = 0 + count_eq m' 1"
  proof (rule infer_loop_count)
    fix p y x
    assume mem: "(p, (y, x)) \<in> set ?zs"
    note pin = zip_set_facts(1)[OF mem] and pat = zip_set_facts(2)[OF mem]
    show "y + 128 \<le> nrows ?z \<and> x + 128 \<le> ncols ?z"
      using positions_in_bounds[OF pin] by (simp add: np_zeros_def)
    show "128 dvd y \<and> 128 dvd x" using pin by (simp add: positions_of_set)
    from assms pat obtain labels where lb: "model p = Inr labels"
      "\<forall>r<128. \<forall>c<128. labels r c \<in> {0, 1}" by blast
    have "labels r c \<le> 1" if "r < 128" "c < 128" for r c
    proof -
      from that lb(2) have "labels r c \<in> {0, 1}" by blast
      then show ?thesis by auto
    qed
    then have "model p = Inr labels \<and> (\<forall>r<128. \<forall>c<128. labels r c \<le> 1)"
      using lb(1) by blast
    then show "\<exists>f. model p = Inr f \<and> (\<forall>r<128. \<forall>c<128. f r c \<le> 1)" by blast
  next
    fix p y x r c
    show "cell ?z r c = 0" by (simp add: np_zeros_def)
  next
    show "distinct (map snd ?zs)"
      by (simp only: map_snd_zip_patches distinct_positions_of)
  qed
  then show ?thesis by (auto simp add: infer_full_mask_eq count_eq_zeros)
qed

theorem total_equals_mask_ones_witness:
  "\<exists>mask total. infer_full_mask (\<lambda>patch. Inr (\<lambda>r c. 1))
       \<lparr>nrows = 128, ncols = 256, cell = (\<lambda>r c. (0, 0, 0))\<rparr> = Inr (mask, total) \<and>
     total = count_eq mask 1"
  using total_equals_mask_ones [of "\<lparr>nrows = 128, ncols = 256, cell = (\<lambda>r c. (0, 0, 0))\<rparr>"
      "\<lambda>patch. Inr (\<lambda>r c. 1)"]
  by simp

section \<open>Properties of the entry point and of failed runs\<close>

lemma split_on_no_sep: "sep \<notin> set s \<Longrightarrow> split_on sep s = [s]"
  by (induction s) auto

lemma split_on_append:
  "sep \<notin> set s \<Longrightarrow> split_on sep (s @ sep # rest) = s # split_on sep rest"
  by (induction s) auto

lemma split_on_print:
  "newline \<notin> set s \<Longrightarrow> split_on newline (print s @ rest) = s # split_on newline rest"
  by (simp add: print_def split_on_append)

lemma split_on_print_last:
  "newline \<notin> set s \<Longrightarrow> split_on newline (print s) = [s, []]"
  using split_on_print[of s "[]"] by simp

lemma startswith_append: "startswith (p @ s) p"
  by (induction p) auto

lemma run_wrong_argc:
  "length argv \<noteq> 2 \<Longrightarrow> run env argv = (print usage_message, 1)"
  by (simp add: run_def usage_message_def)

lemma run_missing_path:
  "length argv = 2 \<Longrightarrow> \<not> path_exists env (argv ! 1) \<Longrightarrow>
     run env argv = (print (not_found_message (argv ! 1)), 1)"
  by (simp add: run_def not_found_message_def)

lemma newline_usage: "newline \<notin> set usage_message"
  by (simp add: usage_message_def newline_def)

lemma newline_not_found:
  "newline \<notin> set p \<Longrightarrow> newline \<notin> set (not_found_message p)"
  by (simp add: not_found_message_def newline_def)

lemma no_block_single: "\<not> block_in [s, []]"
  by simp

lemma split_on_nonempty: "split_on sep s \<noteq> []"
  by (induction s) (auto split: list.splits)

lemma split_on_append_general:
  "split_on sep (t @ u) =
     butlast (split_on sep t) @ [last (split_on sep t) @ hd (split_on sep u)] @ tl (split_on sep u)"
proof (induction t)
  case Nil
  then show ?case using split_on_nonempty[of sep u] by simp
next
  case (Cons x t)
  obtain w ws where w: "split_on sep t = w # ws"
    using split_on_nonempty[of sep t] by (cases "split_on sep t") auto
  obtain v vs where v: "split_on sep (t @ u) = v # vs"
    using split_on_nonempty[of sep "t @ u"] by (cases "split_on sep (t @ u)") auto
  show ?case
  proof (cases "x = sep")
    case True
    then show ?thesis using Cons.IH w by simp
  next
    case False
    show ?thesis
    proof (cases ws)
      case Nil
      then show ?thesis using Cons.IH w v False by simp
    next
      case (Cons a as)
      then show ?thesis using Cons.IH w v False by simp
    qed
  qed
qed

lemma not_found_ne_end: "z @ '' not found'' \<noteq> ''RESULTS_END''"
proof
  assume "z @ '' not found'' = ''RESULTS_END''"
  then have "rev (z @ '' not found'') = rev ''RESULTS_END''" by simp
  then show False by simp
qed

lemma block_in_drop_tail:
  assumes "x \<noteq> ''RESULTS_END''" and "y \<noteq> ''RESULTS_END''"
  shows "block_in (ms @ [x, y]) \<Longrightarrow> block_in ms"
proof (induction ms)
  case Nil
  then show ?case by simp
next
  case (Cons m ms)
  show ?case
  proof (cases "block_in (ms @ [x, y])")
    case True
    then show ?thesis using Cons.IH by simp
  next
    case False
    with Cons.prems have h: "block_here (m # ms @ [x, y])" by simp
    have "block_here (m # ms)"
    proof (cases ms)
      case Nil
      then show ?thesis using h by simp
    next
      case (Cons b ms1)
      note c1 = this
      show ?thesis
      proof (cases ms1)
        case Nil
        then show ?thesis using h c1 assms by simp
      next
        case (Cons c ms2)
        note c2 = this
        show ?thesis
        proof (cases ms2)
          case Nil
          then show ?thesis using h c1 c2 assms by simp
        next
          case (Cons d ms3)
          then show ?thesis using h c1 c2 by simp
        qed
      qed
    qed
    then show ?thesis by simp
  qed
qed

lemma block_in_append: "block_in ms \<Longrightarrow> block_in (ms @ ns)"
proof (induction ms)
  case Nil
  then show ?case by simp
next
  case (Cons m ms)
  show ?case
  proof (cases "block_in ms")
    case True
    then show ?thesis using Cons.IH by simp
  next
    case False
    with Cons.prems have h: "block_here (m # ms)" by simp
    then obtain b c d rest where "ms = b # c # d # rest"
      by (cases ms; cases "tl ms"; cases "tl (tl ms)") auto
    then show ?thesis using h by simp
  qed
qed

lemma block_here_first: "block_here (l # ls) \<Longrightarrow> l = ''RESULTS_START''"
  by (cases "l # ls" rule: block_here.cases) auto

lemma error_line_not_start: "''Error: Image file '' @ h \<noteq> ''RESULTS_START''"
  by simp

lemma split_on_wrapped:
  assumes "sep \<notin> set pre" and "sep \<notin> set suf"
  shows "split_on sep (pre @ p @ suf @ [sep]) =
     (pre @ hd (butlast (split_on sep p) @ [last (split_on sep p) @ suf, []])) #
     tl (butlast (split_on sep p) @ [last (split_on sep p) @ suf, []])"
proof -
  let ?L = "split_on sep p"
  have s: "split_on sep (suf @ [sep]) = [suf, []]"
    using split_on_append[OF assms(2), of "[]"] by simp
  have "split_on sep (p @ (suf @ [sep])) =
      butlast ?L @ [last ?L @ hd [suf, []]] @ tl [suf, []]"
    by (simp only: split_on_append_general[of sep p] s)
  then have y: "split_on sep (p @ suf @ [sep]) = butlast ?L @ [last ?L @ suf, []]" by simp
  have "split_on sep (pre @ (p @ suf @ [sep])) =
      butlast [pre] @ [last [pre] @ hd (split_on sep (p @ suf @ [sep]))] @
      tl (split_on sep (p @ suf @ [sep]))"
    by (simp only: split_on_append_general[of sep pre] split_on_no_sep[OF assms(1)])
  then show ?thesis by (simp only: y) simp
qed

lemma not_found_lines:
  "split_on newline (print (not_found_message p)) =
     (''Error: Image file '' @
        hd (butlast (split_on newline p) @ [last (split_on newline p) @ '' not found'', []])) #
     tl (butlast (split_on newline p) @ [last (split_on newline p) @ '' not found'', []])"
proof -
  have n: "newline \<notin> set ''Error: Image file ''" "newline \<notin> set '' not found''"
    by (simp_all add: newline_def)
  have "print (not_found_message p) = ''Error: Image file '' @ p @ '' not found'' @ [newline]"
    by (simp add: print_def not_found_message_def)
  then show ?thesis by (simp only: split_on_wrapped[OF n])
qed

lemma not_found_keeps_no_block:
  assumes "\<not> has_results_block p"
  shows "\<not> has_results_block (print (not_found_message p))"
proof
  let ?L = "split_on newline p"
  let ?X = "butlast ?L @ [last ?L @ '' not found'', []]"
  assume "has_results_block (print (not_found_message p))"
  then have "block_in ((''Error: Image file '' @ hd ?X) # tl ?X)"
    by (simp only: has_results_block_def not_found_lines)
  moreover have "\<not> block_here ((''Error: Image file '' @ hd ?X) # tl ?X)"
    using block_here_first error_line_not_start by blast
  ultimately have t: "block_in (tl ?X)" by simp
  have L: "?L = butlast ?L @ [last ?L]"
    using split_on_nonempty[of newline p] by simp
  show False
  proof (cases "butlast ?L")
    case Nil
    then show False using t by simp
  next
    case (Cons l0 mid)
    then have "block_in (mid @ [last ?L @ '' not found'', []])" using t by simp
    then have "block_in mid"
      by (rule block_in_drop_tail[rotated 2]) (simp_all add: not_found_ne_end)
    then have "block_in (mid @ [last ?L])" by (rule block_in_append)
    then have "block_in (l0 # mid @ [last ?L])" by simp
    then have "block_in ?L" using L Cons by (metis append_Cons)
    then show False using assms by (simp add: has_results_block_def)
  qed
qed

text \<open>
  Claim C6, as the code has it. When the argument count is not one positional argument
  (\<^verbatim>\<open>len(sys.argv) != 2\<close>) or the path does not exist, the run exits with status 1 and
  its whole output is one printed message: the usage text, or the error text that
  contains the path. The output holds no RESULTS block, unless the text of the path
  itself holds one (the path is echoed into the message as it is). When the path holds
  no line feed, and always in the usage case, the output is that single line.
\<close>

theorem run_usage_errors:
  assumes "length argv \<noteq> 2 \<or> \<not> path_exists env (argv ! 1)"
  shows "snd (run env argv) = 1 \<and>
     fst (run env argv) =
       print (if length argv \<noteq> 2 then usage_message else not_found_message (argv ! 1)) \<and>
     (length argv \<noteq> 2 \<or> \<not> has_results_block (argv ! 1) \<longrightarrow>
        \<not> has_results_block (fst (run env argv))) \<and>
     (length argv \<noteq> 2 \<or> newline \<notin> set (argv ! 1) \<longrightarrow>
        split_on newline (fst (run env argv)) =
          [if length argv \<noteq> 2 then usage_message else not_found_message (argv ! 1), []])"
proof (cases "length argv \<noteq> 2")
  case True
  then show ?thesis
    by (simp add: run_wrong_argc has_results_block_def split_on_print_last newline_usage)
next
  case False
  then have len: "length argv = 2" by simp
  with assms have "\<not> path_exists env (argv ! 1)" by simp
  from run_missing_path[OF len this] len show ?thesis
    using not_found_keeps_no_block[of "argv ! 1"]
    by (simp add: split_on_print_last newline_not_found)
qed

theorem run_usage_errors_witness:
  "run \<lparr>path_exists = (\<lambda>p. False), load_model = Inl (OtherError ''FileNotFoundError''),
        raster_at = (\<lambda>p. Unreadable), str_round2 = (\<lambda>a. []), save_plot = (\<lambda>i m a. None)\<rparr>
     [''modeltester_UI.py'', ''a\<newline>b''] =
     (''Error: Image file a\<newline>b not found\<newline>'', 1) \<and>
   \<not> has_results_block ''Error: Image file a\<newline>b not found\<newline>''"
proof -
  let ?env = "\<lparr>path_exists = (\<lambda>p. False), load_model = Inl (OtherError ''FileNotFoundError''),
        raster_at = (\<lambda>p. Unreadable), str_round2 = (\<lambda>a. []), save_plot = (\<lambda>i m a. None)\<rparr>"
  let ?argv = "[''modeltester_UI.py'', ''a\<newline>b'']"
  have h: "length ?argv \<noteq> 2 \<or> \<not> path_exists ?env (?argv ! 1)" by simp
  have n: "\<not> has_results_block (?argv ! 1)"
    by (simp add: has_results_block_def newline_def)
  note t = run_usage_errors[OF h]
  have a: "snd (run ?env ?argv) = 1" using t by blast
  have "fst (run ?env ?argv) =
      print (if length ?argv \<noteq> 2 then usage_message else not_found_message (?argv ! 1))"
    using t by blast
  then have b: "fst (run ?env ?argv) = print (not_found_message ''a\<newline>b'')" by simp
  have c: "\<not> has_results_block (fst (run ?env ?argv))" using t n by blast
  have d: "print (not_found_message ''a\<newline>b'') = ''Error: Image file a\<newline>b not found\<newline>''"
    by (simp add: print_def not_found_message_def newline_def)
  show ?thesis using a b c d by (simp add: prod_eq_iff)
qed

text \<open>
  Claim C6 as stated fails for a path whose own text holds a RESULTS block: the path is
  echoed into the message as it is, so a missing path that spells the four lines of a
  block between line feeds puts a RESULTS block on standard output.
\<close>

theorem run_usage_errors_counterexample:
  "run \<lparr>path_exists = (\<lambda>p. False), load_model = Inl (OtherError ''FileNotFoundError''),
        raster_at = (\<lambda>p. Unreadable), str_round2 = (\<lambda>a. []), save_plot = (\<lambda>i m a. None)\<rparr>
     [''modeltester_UI.py'',
      ''a\<newline>RESULTS_START\<newline>ROOFTOP_PIXELS:1\<newline>ROOFTOP_AREA:0.09\<newline>RESULTS_END\<newline>b''] =
     (''Error: Image file a\<newline>RESULTS_START\<newline>ROOFTOP_PIXELS:1\<newline>ROOFTOP_AREA:0.09\<newline>RESULTS_END\<newline>b not found\<newline>'', 1) \<and>
   split_on newline
     ''Error: Image file a\<newline>RESULTS_START\<newline>ROOFTOP_PIXELS:1\<newline>ROOFTOP_AREA:0.09\<newline>RESULTS_END\<newline>b not found\<newline>'' =
     [''Error: Image file a'', ''RESULTS_START'', ''ROOFTOP_PIXELS:1'', ''ROOFTOP_AREA:0.09'',
      ''RESULTS_END'', ''b not found'', []] \<and>
   has_results_block
     ''Error: Image file a\<newline>RESULTS_START\<newline>ROOFTOP_PIXELS:1\<newline>ROOFTOP_AREA:0.09\<newline>RESULTS_END\<newline>b not found\<newline>''"
  by (simp add: run_def print_def newline_def has_results_block_def)

lemma read_image_fails:
  "unreadable_or_few_bands f \<Longrightarrow>
     read_image f = Inl (case f of Unreadable \<Rightarrow> RasterioIOError | Dataset n h w s \<Rightarrow> IndexError)"
  by (cases f) (simp_all add: read_image_def unreadable_or_few_bands_def)

lemma read_image_never_ImageReadError: "read_image f \<noteq> Inl ImageReadError"
  by (cases f) (simp_all add: read_image_def)

lemma main_read_fails:
  assumes "read_image (raster_at env p) = Inl e"
  shows "(\<exists>e'. main env p = (print ''Loading model...'', Inl e')) \<or>
         main env p = (print ''Loading model...'' @ print ''Reading image...'', Inl e)"
  using assms by (cases "load_model env") (simp_all add: main_def)

lemma lines_loading:
  "split_on newline (print ''Loading model...'') = [''Loading model...'', []]"
  by (rule split_on_print_last) (simp add: newline_def)

lemma lines_loading_reading:
  "split_on newline (print ''Loading model...'' @ print ''Reading image...'') =
     [''Loading model...'', ''Reading image...'', []]"
proof -
  have "split_on newline (print ''Loading model...'' @ print ''Reading image...'') =
      ''Loading model...'' # split_on newline (print ''Reading image...'')"
    by (rule split_on_print) (simp add: newline_def)
  also have "split_on newline (print ''Reading image...'') = [''Reading image...'', []]"
    by (rule split_on_print_last) (simp add: newline_def)
  finally show ?thesis .
qed

text \<open>
  Claim C8, as the code has it. When the raster file is unreadable or has fewer than
  three bands, the load step fails with the library's exception, \<open>RasterioIOError\<close> or
  \<open>IndexError\<close>, never with \<open>ImageReadError\<close>. The run then exits with status 1; its output
  is the progress lines printed so far, holds no RESULTS block, and gives the caller's
  scan no value.
\<close>

theorem unreadable_image_aborts:
  assumes "length argv = 2" and "path_exists env (argv ! 1)"
    and "unreadable_or_few_bands (raster_at env (argv ! 1))"
  shows "read_image (raster_at env (argv ! 1)) =
       Inl (case raster_at env (argv ! 1) of
              Unreadable \<Rightarrow> RasterioIOError | Dataset n h w s \<Rightarrow> IndexError) \<and>
     read_image (raster_at env (argv ! 1)) \<noteq> Inl ImageReadError \<and>
     snd (run env argv) = 1 \<and>
     (split_on newline (fst (run env argv)) = [''Loading model...'', []] \<or>
      split_on newline (fst (run env argv)) = [''Loading model...'', ''Reading image...'', []]) \<and>
     \<not> has_results_block (fst (run env argv)) \<and>
     parse_output (fst (run env argv)) = Inr (None, None)"
proof -
  let ?p = "argv ! 1"
  note rd = read_image_fails[OF assms(3)]
  from main_read_fails[OF rd]
  consider e' where "main env ?p = (print ''Loading model...'', Inl e')"
    | e' where "main env ?p = (print ''Loading model...'' @ print ''Reading image...'', Inl e')"
    by blast
  then have "snd (run env argv) = 1 \<and>
     (split_on newline (fst (run env argv)) = [''Loading model...'', []] \<or>
      split_on newline (fst (run env argv)) = [''Loading model...'', ''Reading image...'', []]) \<and>
     \<not> has_results_block (fst (run env argv)) \<and>
     parse_output (fst (run env argv)) = Inr (None, None)"
  proof cases
    case 1
    then have "run env argv = (print ''Loading model...'', 1)"
      using assms(1,2) by (simp add: run_def)
    then show ?thesis
      by (simp add: lines_loading has_results_block_def parse_output_def)
  next
    case 2
    then have "run env argv = (print ''Loading model...'' @ print ''Reading image...'', 1)"
      using assms(1,2) by (simp add: run_def)
    then show ?thesis
      by (simp add: lines_loading_reading has_results_block_def parse_output_def)
  qed
  then show ?thesis using rd read_image_never_ImageReadError by blast
qed

theorem unreadable_image_aborts_witness:
  "read_image (Dataset 2 300 300 (\<lambda>b r c. 0)) = Inl IndexError \<and>
   run \<lparr>path_exists = (\<lambda>p. True), load_model = Inr (\<lambda>patch. Inr (\<lambda>r c. 0)),
        raster_at = (\<lambda>p. Dataset 2 300 300 (\<lambda>b r c. 0)), str_round2 = (\<lambda>a. []),
        save_plot = (\<lambda>i m a. None)\<rparr> [''modeltester_UI.py'', ''two_bands.tif''] =
     (''Loading model...\<newline>Reading image...\<newline>'', 1)"
proof -
  let ?env = "\<lparr>path_exists = (\<lambda>p. True), load_model = Inr (\<lambda>patch. Inr (\<lambda>r c. 0)),
        raster_at = (\<lambda>p. Dataset 2 300 300 (\<lambda>b r c. 0)), str_round2 = (\<lambda>a. []),
        save_plot = (\<lambda>i m a. None)\<rparr>"
  let ?argv = "[''modeltester_UI.py'', ''two_bands.tif'']"
  have "length ?argv = 2" "path_exists ?env (?argv ! 1)"
    "unreadable_or_few_bands (raster_at ?env (?argv ! 1))"
    by (simp_all add: unreadable_or_few_bands_def)
  note t = unreadable_image_aborts[OF this]
  have a: "read_image (Dataset 2 300 300 (\<lambda>b r c. 0)) = Inl IndexError" using t by simp
  have b: "snd (run ?env ?argv) = 1" using t by blast
  have c: "fst (run ?env ?argv) = ''Loading model...\<newline>Reading image...\<newline>''"
    by (simp add: run_def main_def read_image_def print_def newline_def)
  show ?thesis using a b c by (simp add: prod_eq_iff)
qed

text \<open>
  Claim C8 as stated fails: the exception of the load step is \<open>RasterioIOError\<close> for an
  unreadable file and \<open>IndexError\<close> for a file with two bands, not \<open>ImageReadError\<close>.
\<close>

theorem unreadable_image_aborts_counterexample:
  "read_image Unreadable = Inl RasterioIOError \<and>
   read_image Unreadable \<noteq> Inl ImageReadError \<and>
   read_image (Dataset 2 300 300 (\<lambda>b r c. 0)) = Inl IndexError \<and>
   read_image (Dataset 2 300 300 (\<lambda>b r c. 0)) \<noteq> Inl ImageReadError"
  by (simp add: read_image_def)

lemma product_Nil_right: "List.product xs [] = []"
  by (induction xs) auto

lemma positions_of_small:
  "nrows img < 128 \<or> ncols img < 128 \<Longrightarrow> positions_of img = []"
  by (auto simp add: positions_of_eq tile_offsets_def product_Nil_right)

lemma extract_patches_small:
  "nrows img < 128 \<or> ncols img < 128 \<Longrightarrow>
     extract_patches img PATCH_SIZE STRIDE = Inr ([], [], nrows img, ncols img)"
  by (auto simp add: extract_patches_128 PATCH_SIZE_def STRIDE_def tile_offsets_def product_Nil_right)

lemma infer_full_mask_small:
  "nrows img < 128 \<or> ncols img < 128 \<Longrightarrow>
     infer_full_mask model img = Inr (np_zeros (nrows img) (ncols img), 0)"
  by (simp add: infer_full_mask_def extract_patches_small)

lemma str_nat_0: "str_nat 0 = ''0''"
  by code_simp

lemma to_double_0: "to_double 0 = 0"
  by (simp add: to_double_def)

lemma area_0: "int_times_float 0 PIXEL_AREA_M2 = 0"
  by (simp add: int_times_float_def to_double_0)

lemma round_half_even_0: "round_half_even 0 = 0"
  by (simp add: round_half_even_def)

lemma digit_char_0: "digit_char 0 = CHR ''0''"
  by code_simp

lemma format_2f_0: "format_2f 0 = ''0.00''"
  by (simp add: format_2f_def round_half_even_0 str_nat_0 digit_char_0)

lemma run_small_image:
  assumes "nrows img < 128 \<or> ncols img < 128"
    and "length argv = 2" "path_exists env (argv ! 1)" "load_model env = Inr model"
    and "read_image (raster_at env (argv ! 1)) = Inr img"
    and "save_plot env img (np_zeros (nrows img) (ncols img)) 0 = None"
  shows "run env argv =
          (print ''Loading model...'' @ print ''Reading image...'' @
           print ''Running inference...'' @ print ''Rooftop Pixels: 0'' @
           print (''Estimated Rooftop Area: '' @ str_round2 env 0 @
                  [CHR '' '', CHR ''m'', CHR 0xC2, CHR 0xB2]) @
           print ''RESULTS_START'' @ print ''ROOFTOP_PIXELS:0'' @
           print ''ROOFTOP_AREA:0.00'' @ print ''RESULTS_END'', 0)"
  using assms(2-) infer_full_mask_small[OF assms(1), of model]
  by (simp add: run_def main_def area_0 format_2f_0 str_nat_0)

text \<open>
  Claim C10. For every image with height below 128 or width below 128,
  \<open>extract_patches\<close> returns no patch, and \<open>infer_full_mask\<close> returns the all-zero
  \<open>H\<close> by \<open>W\<close> mask and the count 0 whatever the network is, also one that raises on
  every patch: the network is not called. A run that loads the model, reads such an
  image and saves the plot ends with status 0 and prints \<^verbatim>\<open>ROOFTOP_PIXELS:0\<close> and
  \<^verbatim>\<open>ROOFTOP_AREA:0.00\<close> in its RESULTS block.
\<close>

theorem small_image_reports_zero:
  assumes "nrows img < 128 \<or> ncols img < 128"
  shows "extract_patches img PATCH_SIZE STRIDE = Inr ([], [], nrows img, ncols img) \<and>
     (\<forall>model. infer_full_mask model img = Inr (np_zeros (nrows img) (ncols img), 0)) \<and>
     nrows (np_zeros (nrows img) (ncols img)) = nrows img \<and>
     ncols (np_zeros (nrows img) (ncols img)) = ncols img \<and>
     (\<forall>r c. cell (np_zeros (nrows img) (ncols img)) r c = 0) \<and>
     (\<forall>env argv model.
        length argv = 2 \<and> path_exists env (argv ! 1) \<and> load_model env = Inr model \<and>
        read_image (raster_at env (argv ! 1)) = Inr img \<and>
        save_plot env img (np_zeros (nrows img) (ncols img)) 0 = None \<longrightarrow>
        run env argv =
          (print ''Loading model...'' @ print ''Reading image...'' @
           print ''Running inference...'' @ print ''Rooftop Pixels: 0'' @
           print (''Estimated Rooftop Area: '' @ str_round2 env 0 @
                  [CHR '' '', CHR ''m'', CHR 0xC2, CHR 0xB2]) @
           print ''RESULTS_START'' @ print ''ROOFTOP_PIXELS:0'' @
           print ''ROOFTOP_AREA:0.00'' @ print ''RESULTS_END'', 0))"
  using extract_patches_small[OF assms] infer_full_mask_small[OF assms]
    run_small_image[OF assms]
  by (simp add: np_zeros_def)

theorem small_image_reports_zero_witness:
  "infer_full_mask (\<lambda>patch. Inl (OtherError ''RuntimeError''))
     \<lparr>nrows = 100, ncols = 300, cell = (\<lambda>r c. (0, 0, 0))\<rparr> = Inr (np_zeros 100 300, 0) \<and>
   run \<lparr>path_exists = (\<lambda>p. True), load_model = Inr (\<lambda>patch. Inl (OtherError ''RuntimeError'')),
        raster_at = (\<lambda>p. Dataset 3 100 300 (\<lambda>b r c. 0)), str_round2 = (\<lambda>a. ''0.0''),
        save_plot = (\<lambda>i m a. None)\<rparr> [''modeltester_UI.py'', ''small.tif''] =
     (''Loading model...\<newline>Reading image...\<newline>Running inference...\<newline>Rooftop Pixels: 0\<newline>'' @
      ''Estimated Rooftop Area: 0.0 m'' @ [CHR 0xC2, CHR 0xB2] @
      ''\<newline>RESULTS_START\<newline>ROOFTOP_PIXELS:0\<newline>ROOFTOP_AREA:0.00\<newline>RESULTS_END\<newline>'', 0)"
proof -
  let ?img = "\<lparr>nrows = 100, ncols = 300, cell = (\<lambda>r c. (0, 0, 0))\<rparr> :: image"
  let ?model = "(\<lambda>patch. Inl (OtherError ''RuntimeError'')) :: model"
  let ?env = "\<lparr>path_exists = (\<lambda>p. True), load_model = Inr ?model,
        raster_at = (\<lambda>p. Dataset 3 100 300 (\<lambda>b r c. 0)), str_round2 = (\<lambda>a. ''0.0''),
        save_plot = (\<lambda>i m a. None)\<rparr>"
  let ?argv = "[''modeltester_UI.py'', ''small.tif'']"
  have h: "nrows ?img < 128 \<or> ncols ?img < 128" by simp
  note t = small_image_reports_zero[OF h]
  have a: "infer_full_mask ?model ?img = Inr (np_zeros 100 300, 0)" using t by simp
  have rd: "read_image (raster_at ?env (?argv ! 1)) = Inr ?img"
    by (simp add: read_image_def)
  have pre: "length ?argv = 2 \<and> path_exists ?env (?argv ! 1) \<and> load_model ?env = Inr ?model \<and>
        read_image (raster_at ?env (?argv ! 1)) = Inr ?img \<and>
        save_plot ?env ?img (np_zeros (nrows ?img) (ncols ?img)) 0 = None"
    using rd by simp
  from t have "\<forall>env argv model.
        length argv = 2 \<and> path_exists env (argv ! 1) \<and> load_model env = Inr model \<and>
        read_image (raster_at env (argv ! 1)) = Inr ?img \<and>
        save_plot env ?img (np_zeros (nrows ?img) (ncols ?img)) 0 = None \<longrightarrow>
        run env argv =
          (print ''Loading model...'' @ print ''Reading image...'' @
           print ''Running inference...'' @ print ''Rooftop Pixels: 0'' @
           print (''Estimated Rooftop Area: '' @ str_round2 env 0 @
                  [CHR '' '', CHR ''m'', CHR 0xC2, CHR 0xB2]) @
           print ''RESULTS_START'' @ print ''ROOFTOP_PIXELS:0'' @
           print ''ROOFTOP_AREA:0.00'' @ print ''RESULTS_END'', 0)" by blast
  from this[rule_format, OF pre] have b: "run ?env ?argv =
     (''Loading model...\<newline>Reading image...\<newline>Running inference...\<newline>Rooftop Pixels: 0\<newline>'' @
      ''Estimated Rooftop Area: 0.0 m'' @ [CHR 0xC2, CHR 0xB2] @
      ''\<newline>RESULTS_START\<newline>ROOFTOP_PIXELS:0\<newline>ROOFTOP_AREA:0.00\<newline>RESULTS_END\<newline>'', 0)"
    by (simp add: print_def newline_def)
  show ?thesis using a b by blast
qed

section \<open>The output contract and the caller\<close>

lemma of_char_digit_char: "d < 10 \<Longrightarrow> of_char (digit_char d) = 48 + d"
  by (simp add: digit_char_def)

lemma is_digit_digit_char: "d < 10 \<Longrightarrow> is_digit (digit_char d)"
  by (simp add: is_digit_def of_char_digit_char)

lemma str_nat_digits: "list_all is_digit (str_nat n)"
proof (induction n rule: str_nat.induct)
  case (1 n)
  show ?case
  proof (cases "n < 10")
    case True
    then show ?thesis by (subst str_nat.simps) (simp add: is_digit_digit_char)
  next
    case False
    then show ?thesis using 1 by (subst str_nat.simps) (simp add: is_digit_digit_char)
  qed
qed

lemma str_nat_nonempty: "str_nat n \<noteq> []"
  by (subst str_nat.simps) simp

lemma digits_value_snoc:
  "digits_value (ds @ [c]) = 10 * digits_value ds + (of_char c - 48)"
  by (simp add: digits_value_def)

lemma digits_value_str_nat: "digits_value (str_nat n) = n"
proof (induction n rule: str_nat.induct)
  case (1 n)
  show ?case
  proof (cases "n < 10")
    case True
    then show ?thesis
      by (subst str_nat.simps) (simp add: digits_value_def of_char_digit_char)
  next
    case False
    then have "digits_value (str_nat (n div 10)) = n div 10" using 1 by simp
    then show ?thesis using False
      by (subst str_nat.simps) (simp add: digits_value_snoc of_char_digit_char)
  qed
qed

lemma is_digit_not_special:
  assumes "is_digit c"
  shows "c \<noteq> newline" "c \<noteq> CHR '':''" "c \<noteq> CHR ''.''" "c \<noteq> CHR ''-''" "c \<noteq> CHR ''+''"
    "\<not> is_space c"
  using assms by (auto simp add: is_digit_def newline_def is_space_def)

lemma digits_no_char:
  assumes "list_all is_digit ds" and "\<not> is_digit c"
  shows "c \<notin> set ds"
  using assms by (auto simp: list_all_iff)

lemma not_digit_special:
  "\<not> is_digit newline" "\<not> is_digit (CHR '':'')" "\<not> is_digit (CHR ''.'')"
  by (simp_all add: is_digit_def newline_def)

lemma strip_id:
  assumes "s \<noteq> []" "\<not> is_space (hd s)" "\<not> is_space (last s)"
  shows "strip s = s"
proof -
  from assms(1) obtain x xs where s: "s = x # xs" by (cases s) auto
  have d1: "dropWhile is_space s = s" using s assms(2) by simp
  from assms(1) have r: "rev s = last s # rev (butlast s)"
    by (metis append_butlast_last_id rev.simps(2) rev_rev_ident rev_singleton_conv rev_append append_Cons append_Nil)
  have "dropWhile is_space (last s # rev (butlast s)) = last s # rev (butlast s)"
    using assms(3) by simp
  then have "dropWhile is_space (rev s) = rev s" by (simp only: r)
  then show ?thesis by (simp add: strip_def d1)
qed

lemma strip_digits_ends:
  assumes "s \<noteq> []" "is_digit (hd s)" "is_digit (last s)"
  shows "strip s = s"
  using assms by (intro strip_id) (auto dest: is_digit_not_special(6))

lemma py_int_str_nat: "py_int (str_nat n) = Inr (int n)"
proof -
  let ?s = "str_nat n"
  have ne: "?s \<noteq> []" by (rule str_nat_nonempty)
  have all: "list_all is_digit ?s" by (rule str_nat_digits)
  then have hd: "is_digit (hd ?s)" and la: "is_digit (last ?s)"
    using ne by (simp_all add: list_all_iff)
  have st: "strip ?s = ?s" using ne hd la by (rule strip_digits_ends)
  obtain c cs where s: "?s = c # cs" using ne by (cases ?s) auto
  have c: "c \<noteq> CHR ''-''" "c \<noteq> CHR ''+''"
    using hd s is_digit_not_special(4,5) by auto
  have "py_int ?s = unsigned_int ?s"
    using st s c by (simp add: py_int_def)
  also have "\<dots> = Inr (int n)"
    using ne all by (simp add: unsigned_int_def digits_value_str_nat)
  finally show ?thesis .
qed

lemma round_half_even_nonneg: "0 \<le> q \<Longrightarrow> 0 \<le> round_half_even q"
proof -
  assume "0 \<le> q"
  then have "0 \<le> \<lfloor>q\<rfloor>" by simp
  then show ?thesis by (auto simp add: round_half_even_def Let_def)
qed

lemma to_double_nonneg: "0 \<le> q \<Longrightarrow> 0 \<le> to_double q"
proof -
  assume q: "0 \<le> q"
  have p: "0 < power_int (2::rat) e" for e by (simp add: power_int_def)
  have "0 \<le> q / power_int 2 e" for e using q p[of e] by simp
  then have "0 \<le> round_half_even (q / power_int 2 e)" for e
    by (rule round_half_even_nonneg)
  then show ?thesis using p by (simp add: to_double_def Let_def less_imp_le)
qed

lemma area_nonneg: "0 \<le> int_times_float n PIXEL_AREA_M2"
proof -
  have "0 \<le> PIXEL_AREA_M2" unfolding PIXEL_AREA_M2_def by (rule to_double_nonneg) simp
  moreover have "0 \<le> to_double (of_nat n)" by (rule to_double_nonneg) simp
  ultimately have "0 \<le> to_double (of_nat n) * PIXEL_AREA_M2"
    by (rule_tac mult_nonneg_nonneg)
  then show ?thesis
    unfolding int_times_float_def by (rule to_double_nonneg)
qed

lemma digits3: "10 * (10 * (k div 100) + k mod 100 div 10) + k mod 10 = k" for k :: nat
proof -
  have m: "k mod 100 = 10 * (k div 10 mod 10) + k mod 10"
    using mod_mult2_eq[of k 10 10] by simp
  have "k mod 100 div 10 = k div 10 mod 10" unfolding m by simp
  moreover have "k div 100 = k div 10 div 10" using div_mult2_eq[of k 10 10] by simp
  ultimately show ?thesis by simp
qed

lemma format_2f_nonneg:
  assumes "0 \<le> x"
  shows "format_2f x =
     str_nat (nat (round_half_even (x * 100)) div 100) @ ''.'' @
     [digit_char (nat (round_half_even (x * 100)) mod 100 div 10),
      digit_char (nat (round_half_even (x * 100)) mod 10)]"
  using assms by (simp add: format_2f_def Let_def abs_of_nonneg)

lemma format_2f_char_cases:
  assumes "0 \<le> x" and "c \<in> set (format_2f x)"
  shows "is_digit c \<or> c = CHR ''.''"
proof -
  let ?k = "nat (round_half_even (x * 100))"
  have d: "is_digit (digit_char (?k mod 100 div 10))" "is_digit (digit_char (?k mod 10))"
    by (rule is_digit_digit_char, simp)+
  have s: "c \<in> set (str_nat (?k div 100)) \<Longrightarrow> is_digit c"
    using str_nat_digits[of "?k div 100"] by (simp add: list_all_iff)
  from assms(2) have "c \<in> set (str_nat (?k div 100)) \<or> c = CHR ''.'' \<or>
      c = digit_char (?k mod 100 div 10) \<or> c = digit_char (?k mod 10)"
    by (auto simp add: format_2f_nonneg[OF assms(1)])
  then show ?thesis using d s by blast
qed

lemma format_2f_chars:
  assumes "0 \<le> x"
  shows "newline \<notin> set (format_2f x)" and "CHR '':'' \<notin> set (format_2f x)"
proof -
  have n: "\<not> (is_digit newline \<or> newline = CHR ''.'')"
    by (simp add: is_digit_def newline_def)
  have c: "\<not> (is_digit (CHR '':'') \<or> CHR '':'' = CHR ''.'')"
    by (simp add: is_digit_def)
  show "newline \<notin> set (format_2f x)" using format_2f_char_cases[OF assms] n by blast
  show "CHR '':'' \<notin> set (format_2f x)" using format_2f_char_cases[OF assms] c by blast
qed

lemma takeWhile_digits_dot:
  "list_all is_digit ip \<Longrightarrow> takeWhile is_digit (ip @ CHR ''.'' # fp) = ip"
  by (induction ip) (simp_all add: not_digit_special)

lemma dropWhile_digits_dot:
  "list_all is_digit ip \<Longrightarrow> dropWhile is_digit (ip @ CHR ''.'' # fp) = CHR ''.'' # fp"
  by (induction ip) (simp_all add: not_digit_special)

lemma unsigned_decimal_fixed:
  assumes "list_all is_digit ip" "ip \<noteq> []" "list_all is_digit fp"
  shows "unsigned_decimal (ip @ CHR ''.'' # fp) =
     Inr (of_nat (digits_value (ip @ fp)) / 10 ^ length fp)"
  using assms
  by (simp add: unsigned_decimal_def takeWhile_digits_dot dropWhile_digits_dot Let_def)

lemma py_float_format_2f:
  assumes "0 \<le> x"
  shows "py_float (format_2f x) = Inr (to_double (of_int (round_half_even (x * 100)) / 100))"
proof -
  let ?k = "nat (round_half_even (x * 100))"
  let ?ip = "str_nat (?k div 100)"
  let ?d1 = "digit_char (?k mod 100 div 10)"
  let ?d2 = "digit_char (?k mod 10)"
  let ?t = "?ip @ CHR ''.'' # [?d1, ?d2]"
  have t: "format_2f x = ?t" using assms by (simp add: format_2f_nonneg)
  have ip: "list_all is_digit ?ip" "?ip \<noteq> []"
    by (rule str_nat_digits, rule str_nat_nonempty)
  have d: "is_digit ?d1" "is_digit ?d2" by (rule is_digit_digit_char, simp)+
  have hd: "is_digit (hd ?t)" using ip by (cases ?ip) simp_all
  have la: "is_digit (last ?t)" using d by simp
  have st: "strip ?t = ?t" by (rule strip_digits_ends) (use hd la in simp_all)
  obtain c cs where s: "?t = c # cs" by (cases ?t) auto
  have "is_digit c" using hd s by simp
  then have c: "c \<noteq> CHR ''-''" "c \<noteq> CHR ''+''"
    by (rule is_digit_not_special(4), rule is_digit_not_special(5))
  have "py_float ?t = map_sum id to_double (unsigned_decimal ?t)"
    using st c by (simp only: py_float_def s list.case if_False)
  also have "unsigned_decimal ?t = Inr (of_nat (digits_value (?ip @ [?d1, ?d2])) / 10 ^ 2)"
    using unsigned_decimal_fixed[OF ip, of "[?d1, ?d2]"] d by simp
  also have "digits_value (?ip @ [?d1, ?d2]) = ?k"
  proof -
    have "digits_value (?ip @ [?d1, ?d2]) = digits_value ((?ip @ [?d1]) @ [?d2])" by simp
    also have "\<dots> = 10 * (10 * (?k div 100) + ?k mod 100 div 10) + ?k mod 10"
      by (simp only: digits_value_snoc digits_value_str_nat)
         (simp add: of_char_digit_char)
    also have "\<dots> = ?k" by (rule digits3)
    finally show ?thesis .
  qed
  also have "(of_nat ?k :: rat) = of_int (round_half_even (x * 100))"
    using round_half_even_nonneg[of "x * 100"] assms by simp
  finally show ?thesis using t by simp
qed

lemma split_on_prints:
  "\<forall>l \<in> set ls. newline \<notin> set l \<Longrightarrow>
     split_on newline (concat (map print ls)) = ls @ [[]]"
  by (induction ls) (simp_all add: split_on_print)

lemma run_success:
  assumes "run env argv = (out, 0)"
  shows "\<exists>model img msk n.
      length argv = 2 \<and> path_exists env (argv ! 1) \<and>
      load_model env = Inr model \<and>
      read_image (raster_at env (argv ! 1)) = Inr img \<and>
      infer_full_mask model img = Inr (msk, n) \<and>
      save_plot env img msk (rooftop_area_of n) = None \<and>
      out = concat (map print (progress_lines env n @
              [''RESULTS_START'', ''ROOFTOP_PIXELS:'' @ str_nat n,
               ''ROOFTOP_AREA:'' @ format_2f (rooftop_area_of n), ''RESULTS_END'']))"
proof -
  from assms have len: "length argv = 2" and ex: "path_exists env (argv ! 1)"
    by (auto simp add: run_def Let_def split: if_splits)
  from assms len ex have m: "main env (argv ! 1) = (out, Inr ())"
    by (auto simp add: run_def Let_def split: prod.splits sum.splits)
  from m obtain model where lm: "load_model env = Inr model"
    by (cases "load_model env") (auto simp add: main_def)
  from m lm obtain img where rd: "read_image (raster_at env (argv ! 1)) = Inr img"
    by (cases "read_image (raster_at env (argv ! 1))") (auto simp add: main_def)
  from m lm rd obtain msk n where inf: "infer_full_mask model img = Inr (msk, n)"
    by (cases "infer_full_mask model img") (auto simp add: main_def)
  from m lm rd inf have sp: "save_plot env img msk (rooftop_area_of n) = None"
    by (cases "save_plot env img msk (rooftop_area_of n)")
       (auto simp add: main_def rooftop_area_of_def Let_def)
  from m lm rd inf sp have "out = concat (map print (progress_lines env n @
              [''RESULTS_START'', ''ROOFTOP_PIXELS:'' @ str_nat n,
               ''ROOFTOP_AREA:'' @ format_2f (rooftop_area_of n), ''RESULTS_END'']))"
    by (simp add: main_def rooftop_area_of_def Let_def progress_lines_def)
  with len ex lm rd inf sp show ?thesis by blast
qed

lemma scan_lines_skipped:
  "skipped l \<Longrightarrow> scan_lines (l # rest) acc = scan_lines rest acc"
  by (cases acc) (simp add: skipped_def)

lemma scan_lines_skip_all:
  "list_all skipped ls \<Longrightarrow> scan_lines (ls @ rest) acc = scan_lines rest acc"
  by (induction ls) (simp_all add: scan_lines_skipped)

lemma scan_lines_filter:
  assumes "\<And>l. \<not> keep l \<Longrightarrow> skipped l"
  shows "scan_lines (filter keep ls) acc = scan_lines ls acc"
proof (induction ls arbitrary: acc)
  case Nil
  then show ?case by simp
next
  case (Cons l ls)
  obtain a b where acc: "acc = (a, b)" by (cases acc)
  show ?case
  proof (cases "keep l")
    case True
    then show ?thesis using Cons.IH by (simp add: acc split: sum.splits)
  next
    case False
    then have "skipped l" by (rule assms)
    then show ?thesis using False Cons.IH by (simp add: scan_lines_skipped)
  qed
qed

lemma second_field_pixels:
  "CHR '':'' \<notin> set t \<Longrightarrow> second_field (''ROOFTOP_PIXELS:'' @ t) = Inr t"
proof -
  assume t: "CHR '':'' \<notin> set t"
  have "split_on (CHR '':'') (''ROOFTOP_PIXELS'' @ CHR '':'' # t) =
      ''ROOFTOP_PIXELS'' # split_on (CHR '':'') t"
    by (rule split_on_append) simp
  then show ?thesis using t by (simp add: second_field_def split_on_no_sep)
qed

lemma second_field_area:
  "CHR '':'' \<notin> set t \<Longrightarrow> second_field (''ROOFTOP_AREA:'' @ t) = Inr t"
proof -
  assume t: "CHR '':'' \<notin> set t"
  have "split_on (CHR '':'') (''ROOFTOP_AREA'' @ CHR '':'' # t) =
      ''ROOFTOP_AREA'' # split_on (CHR '':'') t"
    by (rule split_on_append) simp
  then show ?thesis using t by (simp add: second_field_def split_on_no_sep)
qed

lemma str_nat_chars: "newline \<notin> set (str_nat n)" "CHR '':'' \<notin> set (str_nat n)"
  by (rule digits_no_char[OF str_nat_digits], simp add: not_digit_special)+

lemma scan_results:
  assumes "0 \<le> a"
  shows "scan_lines [''RESULTS_START'', ''ROOFTOP_PIXELS:'' @ str_nat n,
                     ''ROOFTOP_AREA:'' @ format_2f a, ''RESULTS_END'', []] (None, None) =
     Inr (Some (int n), Some (to_double (of_int (round_half_even (a * 100)) / 100)))"
  by (simp add: second_field_pixels[simplified] second_field_area[simplified] str_nat_chars
      format_2f_chars[OF assms] py_int_str_nat py_float_format_2f[OF assms])

lemma progress_skipped: "list_all skipped (progress_lines env n)"
  by (simp add: progress_lines_def skipped_def)

lemma progress_no_newline:
  assumes "\<forall>a. newline \<notin> set (str_round2 env a)"
  shows "\<forall>l \<in> set (progress_lines env n). newline \<notin> set l"
  using assms str_nat_chars(1)[of n]
  by (simp add: progress_lines_def) (simp add: newline_def)

text \<open>
  Claim C5. On every successful run (exit status 0) standard output consists of the
  progress lines followed by the four lines \<^verbatim>\<open>RESULTS_START\<close>,
  \<^verbatim>\<open>ROOFTOP_PIXELS:<integer>\<close>, \<^verbatim>\<open>ROOFTOP_AREA:<float with 2 decimals>\<close> and
  \<^verbatim>\<open>RESULTS_END\<close>, in that order (the final line feed leaves an empty last item in the
  split). The integer is the decimal text of the count that \<open>infer_full_mask\<close> returned;
  the area text is an integer part, a point and two digits. The caller's scan skips every
  progress line and recovers both values: the count, and the double nearest to the
  two-decimal value printed. The scan gives the same result when the two sentinel lines
  are removed. The text printed for \<^verbatim>\<open>round(rooftop_area, 2)\<close> in the progress line is a
  parameter of the run and is assumed to hold no line feed.
\<close>

theorem results_block_parsed:
  assumes "run env argv = (out, 0)"
    and "\<forall>a. newline \<notin> set (str_round2 env a)"
  shows "\<exists>n.
      (\<exists>model img msk. load_model env = Inr model \<and>
          read_image (raster_at env (argv ! 1)) = Inr img \<and>
          infer_full_mask model img = Inr (msk, n)) \<and>
      split_on newline out =
        progress_lines env n @
        [''RESULTS_START'', ''ROOFTOP_PIXELS:'' @ str_nat n,
         ''ROOFTOP_AREA:'' @ format_2f (rooftop_area_of n), ''RESULTS_END'', []] \<and>
      list_all skipped (progress_lines env n) \<and>
      format_2f (rooftop_area_of n) =
        str_nat (hundredths (rooftop_area_of n) div 100) @ ''.'' @
        [digit_char (hundredths (rooftop_area_of n) mod 100 div 10),
         digit_char (hundredths (rooftop_area_of n) mod 10)] \<and>
      parse_output out =
        Inr (Some (int n), Some (to_double (of_nat (hundredths (rooftop_area_of n)) / 100))) \<and>
      scan_lines (filter (\<lambda>l. l \<noteq> ''RESULTS_START'' \<and> l \<noteq> ''RESULTS_END'')
                   (split_on newline out)) (None, None) = parse_output out"
proof -
  from run_success[OF assms(1)] obtain model img msk n where
    run: "load_model env = Inr model" "read_image (raster_at env (argv ! 1)) = Inr img"
      "infer_full_mask model img = Inr (msk, n)"
    and out: "out = concat (map print (progress_lines env n @
              [''RESULTS_START'', ''ROOFTOP_PIXELS:'' @ str_nat n,
               ''ROOFTOP_AREA:'' @ format_2f (rooftop_area_of n), ''RESULTS_END'']))"
    by blast
  let ?a = "rooftop_area_of n"
  let ?block = "[''RESULTS_START'', ''ROOFTOP_PIXELS:'' @ str_nat n,
               ''ROOFTOP_AREA:'' @ format_2f ?a, ''RESULTS_END'']"
  have a0: "0 \<le> ?a" by (simp add: rooftop_area_of_def area_nonneg)
  have nn: "0 \<le> round_half_even (?a * 100)"
    using a0 by (intro round_half_even_nonneg) simp
  have nl_block: "\<forall>l \<in> set ?block. newline \<notin> set l"
    using str_nat_chars(1)[of n] format_2f_chars(1)[OF a0]
    by simp (simp add: newline_def)
  have "\<forall>l \<in> set (progress_lines env n @ ?block). newline \<notin> set l"
    using progress_no_newline[OF assms(2), of n] nl_block by (simp only: set_append) blast
  from split_on_prints[OF this]
  have lines: "split_on newline out = progress_lines env n @ ?block @ [[]]"
    by (simp only: out append_assoc)
  have fmt: "format_2f ?a =
        str_nat (hundredths ?a div 100) @ ''.'' @
        [digit_char (hundredths ?a mod 100 div 10), digit_char (hundredths ?a mod 10)]"
    using format_2f_nonneg[OF a0] by (simp add: hundredths_def)
  have val: "(of_nat (hundredths ?a) :: rat) = of_int (round_half_even (?a * 100))"
    using nn by (simp add: hundredths_def)
  have parse: "parse_output out =
        Inr (Some (int n), Some (to_double (of_nat (hundredths ?a) / 100)))"
    unfolding parse_output_def lines val
    by (simp only: scan_lines_skip_all[OF progress_skipped] append_Cons append_Nil
        scan_results[OF a0, simplified append_Cons append_Nil])
  have keep: "skipped l" if "\<not> (l \<noteq> ''RESULTS_START'' \<and> l \<noteq> ''RESULTS_END'')" for l
    using that by (auto simp add: skipped_def)
  have "scan_lines (filter (\<lambda>l. l \<noteq> ''RESULTS_START'' \<and> l \<noteq> ''RESULTS_END'')
                   (split_on newline out)) (None, None) =
      scan_lines (split_on newline out) (None, None)"
    by (rule scan_lines_filter) (rule keep)
  then have nosent: "scan_lines (filter (\<lambda>l. l \<noteq> ''RESULTS_START'' \<and> l \<noteq> ''RESULTS_END'')
                   (split_on newline out)) (None, None) = parse_output out"
    by (simp add: parse_output_def)
  show ?thesis
    using run lines progress_skipped[of env n] fmt parse nosent by auto
qed

lemma count_eq_single:
  "count_eq \<lparr>nrows = 128, ncols = 128, cell = (\<lambda>r c. if r = 0 \<and> c = 0 then 1 else 0)\<rparr> (1::nat) = 1"
proof -
  have "{(r, c). r < (128::nat) \<and> c < (128::nat) \<and> (if r = 0 \<and> c = 0 then 1 else 0) = (1::nat)} =
      {(0, 0)}"
    by (auto split: if_splits)
  then show ?thesis by (simp add: count_eq_card)
qed

lemma patches_of_single:
  "patches_of \<lparr>nrows = 128, ncols = 128, cell = f\<rparr> =
     [slice2 \<lparr>nrows = 128, ncols = 128, cell = f\<rparr> 0 128 0 128]"
  by (simp add: patches_of_eq positions_of_eq tile_offsets_def tile_def)

lemma str_nat_1: "str_nat 1 = ''1''"
  by code_simp

lemma format_area_1: "format_2f (rooftop_area_of 1) = ''0.09''"
  by code_simp

lemma hundredths_area_1: "hundredths (rooftop_area_of 1) = 9"
  by code_simp

theorem results_block_parsed_witness:
  "snd (run \<lparr>path_exists = (\<lambda>p. True),
             load_model = Inr (\<lambda>patch. Inr (\<lambda>r c. if r = 0 \<and> c = 0 then 1 else 0)),
             raster_at = (\<lambda>p. Dataset 3 128 128 (\<lambda>b r c. 0)), str_round2 = (\<lambda>a. ''0.09''),
             save_plot = (\<lambda>i m a. None)\<rparr> [''modeltester_UI.py'', ''tile.tif'']) = 0 \<and>
   parse_output
     (fst (run \<lparr>path_exists = (\<lambda>p. True),
             load_model = Inr (\<lambda>patch. Inr (\<lambda>r c. if r = 0 \<and> c = 0 then 1 else 0)),
             raster_at = (\<lambda>p. Dataset 3 128 128 (\<lambda>b r c. 0)), str_round2 = (\<lambda>a. ''0.09''),
             save_plot = (\<lambda>i m a. None)\<rparr> [''modeltester_UI.py'', ''tile.tif''])) =
     Inr (Some 1, Some (to_double (9 / 100)))"
proof -
  let ?model = "(\<lambda>patch. Inr (\<lambda>r c. if r = 0 \<and> c = 0 then 1 else 0)) :: model"
  let ?env = "\<lparr>path_exists = (\<lambda>p. True), load_model = Inr ?model,
             raster_at = (\<lambda>p. Dataset 3 128 128 (\<lambda>b r c. 0)), str_round2 = (\<lambda>a. ''0.09''),
             save_plot = (\<lambda>i m a. None)\<rparr>"
  let ?argv = "[''modeltester_UI.py'', ''tile.tif'']"
  let ?img = "\<lparr>nrows = 128, ncols = 128, cell = (\<lambda>r c. (0, 0, 0))\<rparr> :: image"
  have rd: "read_image (raster_at ?env (?argv ! 1)) = Inr ?img"
    by (simp add: read_image_def)
  have "\<forall>patch \<in> set (patches_of ?img). \<exists>labels. ?model patch = Inr labels" by simp
  from infer_full_mask_total[OF this]
  obtain m where "infer_full_mask ?model ?img =
      Inr (m, sum_list (map (patch_count ?model) (patches_of ?img)))" by blast
  moreover have "sum_list (map (patch_count ?model) (patches_of ?img)) = 1"
    by (simp add: patches_of_single patch_count_Inr count_eq_single del: One_nat_def)
  ultimately have inf: "infer_full_mask ?model ?img = Inr (m, 1)" by simp
  obtain out st where r: "run ?env ?argv = (out, st)" by (cases "run ?env ?argv")
  have st: "st = 0" using r rd inf by (simp add: run_def main_def)
  have nl: "\<forall>a. newline \<notin> set (str_round2 ?env a)" by (simp add: newline_def)
  from results_block_parsed[OF r[unfolded st] nl]
  obtain n msk where "infer_full_mask ?model ?img = Inr (msk, n)"
    and p: "parse_output out =
        Inr (Some (int n), Some (to_double (of_nat (hundredths (rooftop_area_of n)) / 100)))"
    using rd by auto
  with inf have n: "n = 1" by simp
  have "parse_output out = Inr (Some 1, Some (to_double (9 / 100)))"
    using p unfolding n by (simp add: hundredths_area_1 del: One_nat_def)
  then show ?thesis using r st by simp
qed

section \<open>The area: double arithmetic and the printed value\<close>

lemma round_half_even_error: "\<bar>of_int (round_half_even q) - q\<bar> \<le> 1 / 2"
proof -
  let ?f = "\<lfloor>q\<rfloor>"
  let ?d = "q - of_int ?f"
  have d: "0 \<le> ?d" "?d < 1" by linarith+
  consider "?d < 1 / 2" | "1 / 2 < ?d" | "?d = 1 / 2" by linarith
  then show ?thesis
  proof cases
    case 1
    then have "round_half_even q = ?f" by (simp add: round_half_even_def Let_def)
    then show ?thesis using 1 d by simp
  next
    case 2
    then have "round_half_even q = ?f + 1" by (simp add: round_half_even_def Let_def)
    then show ?thesis using 2 d by simp
  next
    case 3
    then have "round_half_even q = ?f \<or> round_half_even q = ?f + 1"
      by (simp add: round_half_even_def Let_def)
    then show ?thesis using 3 by auto
  qed
qed

lemma round_half_even_unique:
  assumes "\<bar>q - of_int k\<bar> < 1 / 2"
  shows "round_half_even q = k"
proof -
  have "\<bar>(of_int (round_half_even q) :: rat) - of_int k\<bar> < 1"
    using round_half_even_error[of q] assms by linarith
  then have "\<bar>(of_int (round_half_even q - k) :: rat)\<bar> < 1" by simp
  then have "\<bar>round_half_even q - k\<bar> < 1"
    by (metis of_int_abs of_int_less_1_iff)
  then show ?thesis by linarith
qed

lemma round_half_even_of_int: "round_half_even (of_int k) = k"
  by (rule round_half_even_unique) simp

lemma binary_exponent_lower:
  assumes "q \<noteq> 0"
  shows "power_int 2 (binary_exponent q) \<le> \<bar>q\<bar>"
proof -
  obtain a b where ab: "quotient_of \<bar>q\<bar> = (a, b)" by (cases "quotient_of \<bar>q\<bar>")
  have b: "0 < b" using ab by (rule quotient_of_denom_pos)
  have q: "\<bar>q\<bar> = of_int a / of_int b" using ab by (rule quotient_of_div)
  have "0 < \<bar>q\<bar>" using assms by simp
  then have a: "0 < a" using q b by (simp add: zero_less_divide_iff)
  let ?e = "bitlen a - bitlen b"
  show ?thesis
  proof (cases "power_int 2 ?e \<le> \<bar>q\<bar>")
    case True
    then show ?thesis by (simp add: binary_exponent_def ab Let_def)
  next
    case False
    have la: "(2::int) ^ nat (bitlen a - 1) \<le> a" using bitlen_bounds[OF a] by simp
    have lb: "b < (2::int) ^ nat (bitlen b)" using bitlen_bounds[OF b] by simp
    have ba: "1 \<le> bitlen a" using a by (simp add: bitlen_alt_def)
    have bb: "0 \<le> bitlen b" by (rule bitlen_nonneg)
    have la': "(2::rat) ^ nat (bitlen a - 1) \<le> of_int a"
      using la by (metis of_int_le_iff of_int_numeral of_int_power)
    have lb': "(of_int b :: rat) \<le> 2 ^ nat (bitlen b)"
      using lb by (metis less_imp_le of_int_le_iff of_int_numeral of_int_power)
    have "power_int (2::rat) (?e - 1) = power_int 2 (bitlen a - 1) / power_int 2 (bitlen b)"
      by (simp add: power_int_diff)
    also have "\<dots> = 2 ^ nat (bitlen a - 1) / 2 ^ nat (bitlen b)"
      using ba bb by (simp add: power_int_nonneg_exp)
    also have "\<dots> \<le> of_int a / 2 ^ nat (bitlen b)"
      using la' by (simp add: divide_right_mono)
    also have "\<dots> \<le> of_int a / of_int b"
      using lb' a b by (simp add: divide_left_mono)
    finally have "power_int 2 (?e - 1) \<le> \<bar>q\<bar>" using q by simp
    then show ?thesis using False by (simp add: binary_exponent_def ab Let_def)
  qed
qed

lemma to_double_error:
  assumes "q \<noteq> 0"
  shows "\<bar>to_double q - q\<bar> \<le> \<bar>q\<bar> / 2 ^ 53"
proof -
  let ?E = "binary_exponent q"
  let ?p = "power_int (2::rat) (?E - 52)"
  have p: "0 < ?p" by simp
  have "to_double q - q = (of_int (round_half_even (q / ?p)) - q / ?p) * ?p"
    using assms p by (simp add: to_double_def Let_def field_simps)
  then have "\<bar>to_double q - q\<bar> = \<bar>of_int (round_half_even (q / ?p)) - q / ?p\<bar> * ?p"
    using p by (simp add: abs_mult)
  also have "\<dots> \<le> (1 / 2) * ?p"
    using round_half_even_error[of "q / ?p"] p by (intro mult_right_mono) simp_all
  also have "(1 / 2) * ?p = power_int 2 ?E / 2 ^ 53"
    by (simp add: power_int_diff)
  also have "\<dots> \<le> \<bar>q\<bar> / 2 ^ 53"
    using binary_exponent_lower[OF assms] by (simp add: divide_right_mono)
  finally show ?thesis .
qed

lemma binary_exponent_upper:
  assumes "q \<noteq> 0"
  shows "\<bar>q\<bar> < power_int 2 (binary_exponent q + 1)"
proof -
  obtain a b where ab: "quotient_of \<bar>q\<bar> = (a, b)" by (cases "quotient_of \<bar>q\<bar>")
  have b: "0 < b" using ab by (rule quotient_of_denom_pos)
  have q: "\<bar>q\<bar> = of_int a / of_int b" using ab by (rule quotient_of_div)
  have "0 < \<bar>q\<bar>" using assms by simp
  then have a: "0 < a" using q b by (simp add: zero_less_divide_iff)
  let ?e = "bitlen a - bitlen b"
  show ?thesis
  proof (cases "power_int 2 ?e \<le> \<bar>q\<bar>")
    case False
    then show ?thesis by (simp add: binary_exponent_def ab Let_def)
  next
    case True
    have ua: "a < (2::int) ^ nat (bitlen a)" using bitlen_bounds[OF a] by simp
    have lb: "(2::int) ^ nat (bitlen b - 1) \<le> b" using bitlen_bounds[OF b] by simp
    have ba: "0 \<le> bitlen a" by (rule bitlen_nonneg)
    have bb: "1 \<le> bitlen b" using b by (simp add: bitlen_alt_def)
    have ua': "(of_int a :: rat) < 2 ^ nat (bitlen a)"
      using ua by (metis of_int_less_iff of_int_numeral of_int_power)
    have lb': "(2::rat) ^ nat (bitlen b - 1) \<le> of_int b"
      using lb by (metis of_int_le_iff of_int_numeral of_int_power)
    have "of_int a / of_int b < 2 ^ nat (bitlen a) / (of_int b :: rat)"
      using ua' b by (simp add: divide_strict_right_mono)
    also have "\<dots> \<le> 2 ^ nat (bitlen a) / 2 ^ nat (bitlen b - 1)"
      by (rule divide_left_mono[OF lb']) (use b in simp_all)
    also have "\<dots> = power_int 2 (bitlen a) / power_int 2 (bitlen b - 1)"
      using ba bb by (simp add: power_int_nonneg_exp)
    also have "\<dots> = power_int (2::rat) (?e + 1)"
      by (simp add: power_int_diff[symmetric] algebra_simps)
    finally have "\<bar>q\<bar> < power_int 2 (?e + 1)" using q by simp
    then show ?thesis using True by (simp add: binary_exponent_def ab Let_def)
  qed
qed

lemma to_double_significand:
  assumes "q \<noteq> 0"
  shows "\<exists>m. to_double q = of_int m * power_int 2 (binary_exponent q - 52) \<and>
     \<bar>m\<bar> \<le> 2 ^ 53 \<and> 2 ^ 52 \<le> \<bar>m\<bar>"
proof -
  let ?E = "binary_exponent q"
  let ?p = "power_int (2::rat) (?E - 52)"
  let ?y = "q / ?p"
  let ?m = "round_half_even ?y"
  have p: "0 < ?p" by simp
  have "\<bar>?y\<bar> = \<bar>q\<bar> / ?p" using p by (simp add: abs_divide)
  moreover have "power_int 2 ?E / ?p = (2::rat) ^ 52" by (simp add: power_int_diff)
  moreover have "power_int 2 (?E + 1) / ?p = (2::rat) ^ 53"
    by (simp add: power_int_diff power_int_add)
  ultimately have lo: "2 ^ 52 \<le> \<bar>?y\<bar>" and hi: "\<bar>?y\<bar> < 2 ^ 53"
    using binary_exponent_lower[OF assms] binary_exponent_upper[OF assms] p
    by (metis divide_right_mono less_imp_le, metis divide_strict_right_mono)
  have e: "\<bar>of_int ?m - ?y\<bar> \<le> 1 / 2" by (rule round_half_even_error)
  have "\<bar>(of_int ?m :: rat)\<bar> < 2 ^ 53 + 1" using e hi by linarith
  then have "\<bar>?m\<bar> < 2 ^ 53 + 1"
    by (metis (mono_tags) of_int_abs of_int_less_iff of_int_numeral of_int_power of_int_add of_int_1)
  then have m1: "\<bar>?m\<bar> \<le> 2 ^ 53" by linarith
  have "(2::rat) ^ 52 - 1 < \<bar>of_int ?m\<bar>" using e lo by linarith
  then have "(2::int) ^ 52 - 1 < \<bar>?m\<bar>"
    by (metis (mono_tags) of_int_abs of_int_less_iff of_int_numeral of_int_power of_int_diff of_int_1)
  then have m2: "2 ^ 52 \<le> \<bar>?m\<bar>" by linarith
  have "to_double q = of_int ?m * ?p" using assms by (simp add: to_double_def Let_def)
  then show ?thesis using m1 m2 by blast
qed

lemma power_int_2_neg:
  assumes "e \<le> 0"
  shows "power_int (2::rat) e = 1 / 2 ^ nat (- e)"
proof -
  have "power_int (2::rat) e = power_int 2 (- int (nat (- e)))" using assms by simp
  also have "\<dots> = 1 / 2 ^ nat (- e)" by (simp only: power_int_minus_divide power_int_of_nat)
  finally show ?thesis .
qed

lemma to_double_of_nat:
  assumes "n < 2 ^ 53"
  shows "to_double (of_nat n) = of_nat n"
proof (cases "n = 0")
  case True
  then show ?thesis by (simp add: to_double_def)
next
  case False
  let ?q = "of_nat n :: rat"
  let ?E = "binary_exponent ?q"
  have q0: "?q \<noteq> 0" using False by simp
  have lo: "power_int 2 ?E \<le> ?q" using binary_exponent_lower[OF q0] by simp
  have hi: "?q < 2 ^ 53" using assms by (metis of_nat_less_iff of_nat_numeral of_nat_power)
  have E: "?E < 53"
  proof (rule ccontr)
    assume "\<not> ?E < 53"
    then have "53 \<le> ?E" by simp
    then have "power_int (2::rat) 53 \<le> power_int 2 ?E"
      by (intro power_int_increasing) simp_all
    then show False using lo hi by simp
  qed
  let ?m = "nat (52 - ?E)"
  have p: "power_int (2::rat) (?E - 52) = 1 / 2 ^ ?m"
    using E power_int_2_neg[of "?E - 52"] by simp
  have "?q / power_int 2 (?E - 52) = of_int (int n * 2 ^ ?m)"
    by (simp add: p)
  then have "round_half_even (?q / power_int 2 (?E - 52)) = int n * 2 ^ ?m"
    by (simp only: round_half_even_of_int)
  then show ?thesis using q0 by (simp add: to_double_def Let_def p)
qed

lemma PIXEL_AREA_M2_value: "PIXEL_AREA_M2 = 6485183463413514 / 2 ^ 56"
  by code_simp

lemma pixel_area_gap: "9 / 100 - PIXEL_AREA_M2 = 6 / (25 * 2 ^ 56)"
  by (simp add: PIXEL_AREA_M2_value)

lemma rooftop_area_error:
  assumes "n < 2 ^ 53"
  shows "\<bar>rooftop_area_of n * 100 - of_nat (9 * n)\<bar> \<le> of_nat n * 12 / 2 ^ 53"
proof (cases "n = 0")
  case True
  then show ?thesis by (simp add: rooftop_area_of_def area_0)
next
  case False
  let ?n = "of_nat n :: rat"
  let ?x = "?n * PIXEL_AREA_M2"
  have n0: "0 < ?n" using False by simp
  have x: "?x = ?n * 9 / 100 - ?n * 6 / (25 * 2 ^ 56)"
    using pixel_area_gap by (simp add: algebra_simps)
  have xpos: "0 < ?x" using n0 by (simp add: PIXEL_AREA_M2_value)
  have xle: "?x \<le> ?n * 9 / 100" using n0 by (simp add: x)
  have a: "rooftop_area_of n = to_double ?x"
    by (simp add: rooftop_area_of_def int_times_float_def to_double_of_nat[OF assms])
  have xne: "?x \<noteq> 0" using xpos by linarith
  have "\<bar>to_double ?x - ?x\<bar> \<le> \<bar>?x\<bar> / 2 ^ 53"
    using xne by (rule to_double_error)
  also have "\<bar>?x\<bar> = ?x" using xpos by (simp only: abs_of_pos)
  also have "?x / 2 ^ 53 \<le> (?n * 9 / 100) / 2 ^ 53"
    using xle by (rule divide_right_mono) simp
  finally have e1: "\<bar>to_double ?x - ?x\<bar> \<le> (?n * 9 / 100) / 2 ^ 53" .
  have x100: "?x * 100 - of_nat (9 * n) = - (?n * 24 / 2 ^ 56)"
    unfolding PIXEL_AREA_M2_value by simp
  have "to_double ?x * 100 - of_nat (9 * n) =
      (to_double ?x - ?x) * 100 + (?x * 100 - of_nat (9 * n))"
    by (simp add: algebra_simps)
  then have split: "to_double ?x * 100 - of_nat (9 * n) =
      (to_double ?x - ?x) * 100 - ?n * 24 / 2 ^ 56"
    by (simp only: x100)
  have "\<bar>(to_double ?x - ?x) * 100 - ?n * 24 / 2 ^ 56\<bar> \<le>
      \<bar>(to_double ?x - ?x) * 100\<bar> + \<bar>?n * 24 / 2 ^ 56\<bar>"
    by (rule abs_triangle_ineq4)
  also have "\<bar>(to_double ?x - ?x) * 100\<bar> = \<bar>to_double ?x - ?x\<bar> * 100"
    by (simp only: abs_mult abs_numeral)
  also have "\<bar>?n * 24 / 2 ^ 56\<bar> = ?n * 24 / 2 ^ 56" by simp
  finally have "\<bar>to_double ?x * 100 - of_nat (9 * n)\<bar> \<le>
      \<bar>to_double ?x - ?x\<bar> * 100 + ?n * 24 / 2 ^ 56"
    by (simp only: split)
  also have "\<dots> \<le> (?n * 9 / 100) / 2 ^ 53 * 100 + ?n * 24 / 2 ^ 56"
    using e1 by simp
  also have "\<dots> = ?n * 12 / 2 ^ 53" by simp
  finally show ?thesis by (simp only: a)
qed

lemma hundredths_exact:
  assumes "n < 2 ^ 48"
  shows "hundredths (rooftop_area_of n) = 9 * n"
proof -
  have n53: "n < 2 ^ 53" using assms by (rule less_trans) simp
  have "(of_nat n :: rat) < 2 ^ 48" using assms by (metis of_nat_less_iff of_nat_numeral of_nat_power)
  then have "(of_nat n :: rat) * 12 / 2 ^ 53 < 1 / 2" by simp
  then have "\<bar>rooftop_area_of n * 100 - of_int (int (9 * n))\<bar> < 1 / 2"
    using rooftop_area_error[OF n53] by simp
  then have "round_half_even (rooftop_area_of n * 100) = int (9 * n)"
    by (rule round_half_even_unique)
  then show ?thesis by (simp add: hundredths_def)
qed

lemma hundredths_error:
  assumes "0 \<le> x"
  shows "\<bar>of_nat (hundredths x) / 100 - x\<bar> \<le> 1 / 200"
proof -
  have nn: "0 \<le> round_half_even (x * 100)"
    using assms by (intro round_half_even_nonneg) simp
  have "\<bar>of_int (round_half_even (x * 100)) - x * 100\<bar> \<le> 1 / 2"
    by (rule round_half_even_error)
  moreover have "(of_nat (hundredths x) :: rat) = of_int (round_half_even (x * 100))"
    using nn by (simp add: hundredths_def)
  ultimately have e: "\<bar>of_nat (hundredths x) - x * 100\<bar> \<le> 1 / 2" by simp
  have "of_nat (hundredths x) / 100 - x = (of_nat (hundredths x) - x * 100) / 100"
    by (simp add: field_simps)
  then have "\<bar>of_nat (hundredths x) / 100 - x\<bar> = \<bar>of_nat (hundredths x) - x * 100\<bar> / 100"
    by (simp only: abs_divide abs_numeral)
  also have "\<dots> \<le> (1 / 2) / 100" using e by (rule divide_right_mono) simp
  finally show ?thesis by simp
qed

lemma rooftop_area_close:
  assumes "n < 2 ^ 53"
  shows "\<bar>rooftop_area_of n - of_nat n * (9 / 100)\<bar> \<le> of_nat n * 12 / (100 * 2 ^ 53)"
proof -
  have "rooftop_area_of n - of_nat n * (9 / 100) =
      (rooftop_area_of n * 100 - of_nat (9 * n)) / 100"
    by (simp add: field_simps)
  then have "\<bar>rooftop_area_of n - of_nat n * (9 / 100)\<bar> =
      \<bar>rooftop_area_of n * 100 - of_nat (9 * n)\<bar> / 100"
    by (simp only: abs_divide abs_numeral)
  also have "\<dots> \<le> (of_nat n * 12 / 2 ^ 53) / 100"
    using rooftop_area_error[OF assms] by (rule divide_right_mono) simp
  finally show ?thesis by simp
qed

text \<open>
  Claim C4. In every successful run the area is the product of the pixel count and the
  constant 0.09, computed as the source computes it, on doubles: the count converted to
  a double, times the double nearest to 9/100, rounded to a double. For counts below
  \<open>2 ^ 53\<close> the product differs from the exact \<open>n * 9 / 100\<close> by at most
  \<open>12 * n / (100 * 2 ^ 53)\<close>. The text on the \<^verbatim>\<open>ROOFTOP_AREA\<close> line is that product
  rounded to two decimals: an integer part, a point and two digits, whose value is within
  half a hundredth of the product. For counts below \<open>2 ^ 48\<close> the printed value is
  exactly \<open>n * 9 / 100\<close>.
\<close>

theorem area_is_pixels_times_constant:
  assumes "run env argv = (out, 0)"
  shows "\<exists>n.
      (\<exists>model img msk. load_model env = Inr model \<and>
          read_image (raster_at env (argv ! 1)) = Inr img \<and>
          infer_full_mask model img = Inr (msk, n)) \<and>
      out = concat (map print (progress_lines env n @
              [''RESULTS_START'', ''ROOFTOP_PIXELS:'' @ str_nat n,
               ''ROOFTOP_AREA:'' @ format_2f (rooftop_area_of n), ''RESULTS_END''])) \<and>
      rooftop_area_of n = to_double (to_double (of_nat n) * PIXEL_AREA_M2) \<and>
      PIXEL_AREA_M2 = to_double (9 / 100) \<and>
      (n < 2 ^ 53 \<longrightarrow>
         \<bar>rooftop_area_of n - of_nat n * (9 / 100)\<bar> \<le> of_nat n * 12 / (100 * 2 ^ 53)) \<and>
      format_2f (rooftop_area_of n) =
        str_nat (hundredths (rooftop_area_of n) div 100) @ ''.'' @
        [digit_char (hundredths (rooftop_area_of n) mod 100 div 10),
         digit_char (hundredths (rooftop_area_of n) mod 10)] \<and>
      \<bar>of_nat (hundredths (rooftop_area_of n)) / 100 - rooftop_area_of n\<bar> \<le> 1 / 200 \<and>
      (n < 2 ^ 48 \<longrightarrow> hundredths (rooftop_area_of n) = 9 * n)"
proof -
  from run_success[OF assms] obtain model img msk n where
    run: "load_model env = Inr model" "read_image (raster_at env (argv ! 1)) = Inr img"
      "infer_full_mask model img = Inr (msk, n)"
    and out: "out = concat (map print (progress_lines env n @
              [''RESULTS_START'', ''ROOFTOP_PIXELS:'' @ str_nat n,
               ''ROOFTOP_AREA:'' @ format_2f (rooftop_area_of n), ''RESULTS_END'']))"
    by blast
  let ?a = "rooftop_area_of n"
  have a0: "0 \<le> ?a" by (simp add: rooftop_area_of_def area_nonneg)
  have d1: "?a = to_double (to_double (of_nat n) * PIXEL_AREA_M2)"
    by (simp add: rooftop_area_of_def int_times_float_def)
  have d2: "PIXEL_AREA_M2 = to_double (9 / 100)" by (simp add: PIXEL_AREA_M2_def)
  have fmt: "format_2f ?a =
        str_nat (hundredths ?a div 100) @ ''.'' @
        [digit_char (hundredths ?a mod 100 div 10), digit_char (hundredths ?a mod 10)]"
    using format_2f_nonneg[OF a0] by (simp add: hundredths_def)
  note err = hundredths_error[OF a0]
  show ?thesis
    apply (rule exI[of _ n])
    apply (intro conjI)
           apply (use run in blast)
          apply (rule out)
         apply (rule d1)
        apply (rule d2)
       apply (use rooftop_area_close in blast)
      apply (rule fmt)
     apply (rule err)
    apply (use hundredths_exact in blast)
    done
qed

theorem area_is_pixels_times_constant_witness:
  "run \<lparr>path_exists = (\<lambda>p. True),
        load_model = Inr (\<lambda>patch. Inr (\<lambda>r c. if r = 0 \<and> c = 0 then 1 else 0)),
        raster_at = (\<lambda>p. Dataset 3 128 128 (\<lambda>b r c. 0)), str_round2 = (\<lambda>a. ''0.09''),
        save_plot = (\<lambda>i m a. None)\<rparr> [''modeltester_UI.py'', ''tile.tif''] =
     (''Loading model...\<newline>Reading image...\<newline>Running inference...\<newline>Rooftop Pixels: 1\<newline>'' @
      ''Estimated Rooftop Area: 0.09 m'' @ [CHR 0xC2, CHR 0xB2] @
      ''\<newline>RESULTS_START\<newline>ROOFTOP_PIXELS:1\<newline>ROOFTOP_AREA:0.09\<newline>RESULTS_END\<newline>'', 0)"
proof -
  let ?model = "(\<lambda>patch. Inr (\<lambda>r c. if r = 0 \<and> c = 0 then 1 else 0)) :: model"
  let ?env = "\<lparr>path_exists = (\<lambda>p. True), load_model = Inr ?model,
             raster_at = (\<lambda>p. Dataset 3 128 128 (\<lambda>b r c. 0)), str_round2 = (\<lambda>a. ''0.09''),
             save_plot = (\<lambda>i m a. None)\<rparr>"
  let ?argv = "[''modeltester_UI.py'', ''tile.tif'']"
  let ?img = "\<lparr>nrows = 128, ncols = 128, cell = (\<lambda>r c. (0, 0, 0))\<rparr> :: image"
  have rd: "read_image (raster_at ?env (?argv ! 1)) = Inr ?img"
    by (simp add: read_image_def)
  have "\<forall>patch \<in> set (patches_of ?img). \<exists>labels. ?model patch = Inr labels" by simp
  from infer_full_mask_total[OF this]
  obtain m where "infer_full_mask ?model ?img =
      Inr (m, sum_list (map (patch_count ?model) (patches_of ?img)))" by blast
  moreover have "sum_list (map (patch_count ?model) (patches_of ?img)) = 1"
    by (simp add: patches_of_single patch_count_Inr count_eq_single del: One_nat_def)
  ultimately have inf: "infer_full_mask ?model ?img = Inr (m, 1)" by simp
  obtain out st where r: "run ?env ?argv = (out, st)" by (cases "run ?env ?argv")
  have st: "st = 0" using r rd inf by (simp add: run_def main_def)
  from area_is_pixels_times_constant[OF r[unfolded st]]
  obtain n msk where "infer_full_mask ?model ?img = Inr (msk, n)"
    and o: "out = concat (map print (progress_lines ?env n @
              [''RESULTS_START'', ''ROOFTOP_PIXELS:'' @ str_nat n,
               ''ROOFTOP_AREA:'' @ format_2f (rooftop_area_of n), ''RESULTS_END'']))"
    using rd by auto
  with inf have n: "n = 1" by simp
  have "out = ''Loading model...\<newline>Reading image...\<newline>Running inference...\<newline>Rooftop Pixels: 1\<newline>'' @
      ''Estimated Rooftop Area: 0.09 m'' @ [CHR 0xC2, CHR 0xB2] @
      ''\<newline>RESULTS_START\<newline>ROOFTOP_PIXELS:1\<newline>ROOFTOP_AREA:0.09\<newline>RESULTS_END\<newline>''"
    unfolding o n
    by (simp add: progress_lines_def print_def newline_def str_nat_1 format_area_1
        del: One_nat_def)
  then show ?thesis using r st by simp
qed

end
